theory Spec2Isabelle
  imports Complex_Main "HOL-Library.Sublist"
begin

section \<open>Text primitives of the host language\<close>

text \<open>
  The analysed document is a Python \<open>str\<close>, a sequence of Unicode code points.  A
  \<^typ>\<open>char\<close> stands for one code point of the range U+0000 .. U+00FF (Latin-1), so
  \<^term>\<open>length\<close> counts what \<open>len\<close> counts and the multiplication sign of the calculation
  pattern is the single character \<open>0xD7\<close>.  The character predicates below are the Unicode
  ones that \<open>str.lower\<close>, \<open>str.split\<close>, \<open>str.strip\<close> and the \<open>re\<close> module use, restricted to
  that range.
\<close>

definition cp :: "char \<Rightarrow> int" where
  "cp c = of_char c"

text \<open>\<open>\s\<close>, \<open>str.isspace\<close>: TAB .. CR, FS .. US, SPACE, NEL, NBSP.\<close>

definition is_space :: "char \<Rightarrow> bool" where
  "is_space c = ((9 \<le> cp c \<and> cp c \<le> 13) \<or> (28 \<le> cp c \<and> cp c \<le> 32) \<or> cp c = 133 \<or> cp c = 160)"

text \<open>\<open>\d\<close>: the decimal digits.\<close>

definition is_digit :: "char \<Rightarrow> bool" where
  "is_digit c = (48 \<le> cp c \<and> cp c \<le> 57)"

text \<open>\<open>\w\<close>: alphanumeric code points and the underscore.\<close>

definition is_word :: "char \<Rightarrow> bool" where
  "is_word c =
     ((48 \<le> cp c \<and> cp c \<le> 57) \<or> (65 \<le> cp c \<and> cp c \<le> 90) \<or> cp c = 95 \<or>
      (97 \<le> cp c \<and> cp c \<le> 122) \<or> cp c = 170 \<or> cp c = 178 \<or> cp c = 179 \<or> cp c = 181 \<or>
      cp c = 185 \<or> cp c = 186 \<or> (188 \<le> cp c \<and> cp c \<le> 190) \<or>
      (192 \<le> cp c \<and> cp c \<le> 214) \<or> (216 \<le> cp c \<and> cp c \<le> 246) \<or> 248 \<le> cp c)"

text \<open>\<open>str.lower\<close> on one code point: A .. Z and the capital letters U+00C0 .. U+00DE
  (the multiplication sign U+00D7 apart) move up by 32.\<close>

definition lower_char :: "char \<Rightarrow> char" where
  "lower_char c =
     (if (65 \<le> cp c \<and> cp c \<le> 90) \<or> (192 \<le> cp c \<and> cp c \<le> 222 \<and> cp c \<noteq> 215)
      then char_of (cp c + 32) else c)"

definition lower :: "string \<Rightarrow> string" where
  "lower s = map lower_char s"

text \<open>\<open>needle in haystack\<close> on strings.\<close>

fun py_in :: "string \<Rightarrow> string \<Rightarrow> bool" where
  "py_in k [] = (k = [])"
| "py_in k (c # s) = (prefix k (c # s) \<or> py_in k s)"

text \<open>\<open>any(word in s for word in words)\<close>.\<close>

definition any_in :: "string list \<Rightarrow> string \<Rightarrow> bool" where
  "any_in ws s = list_ex (\<lambda>w. py_in w s) ws"

text \<open>\<open>sum(1 for word in words if word in s)\<close>.\<close>

definition count_in :: "string list \<Rightarrow> string \<Rightarrow> nat" where
  "count_in ws s = length (filter (\<lambda>w. py_in w s) ws)"

text \<open>\<open>s.split(sep)\<close> for a one-character separator.\<close>

fun split_on :: "char \<Rightarrow> string \<Rightarrow> string list" where
  "split_on d [] = [[]]"
| "split_on d (c # s) =
     (if c = d then [] # split_on d s
      else (case split_on d s of [] \<Rightarrow> [[c]] | w # ws \<Rightarrow> (c # w) # ws))"

text \<open>\<open>s.split()\<close>: the maximal runs of non-space characters.  \<open>cur\<close> is the run being
  read, reversed.\<close>

fun split_ws_acc :: "string \<Rightarrow> string \<Rightarrow> string list" where
  "split_ws_acc cur [] = (if cur = [] then [] else [rev cur])"
| "split_ws_acc cur (c # s) =
     (if is_space c then (if cur = [] then split_ws_acc [] s else rev cur # split_ws_acc [] s)
      else split_ws_acc (c # cur) s)"

definition split_ws :: "string \<Rightarrow> string list" where
  "split_ws s = split_ws_acc [] s"

text \<open>\<open>s.strip()\<close>.\<close>

definition strip :: "string \<Rightarrow> string" where
  "strip s = rev (dropWhile is_space (rev (dropWhile is_space s)))"

text \<open>\<open>s.replace(old, new)\<close> for a non-empty \<open>old\<close>, left to right without overlap; the
  counter is the number of characters of a replaced occurrence still to be skipped.\<close>

fun replace_skip :: "string \<Rightarrow> string \<Rightarrow> nat \<Rightarrow> string \<Rightarrow> string" where
  "replace_skip old new k [] = []"
| "replace_skip old new (Suc k) (c # s) = replace_skip old new k s"
| "replace_skip old new 0 (c # s) =
     (if old \<noteq> [] \<and> prefix old (c # s) then new @ replace_skip old new (length old - 1) s
      else c # replace_skip old new 0 s)"

definition replace :: "string \<Rightarrow> string \<Rightarrow> string \<Rightarrow> string" where
  "replace old new s = replace_skip old new 0 s"

section \<open>Regular expressions\<close>

text \<open>
  The fragment of the \<open>re\<close> syntax that the patterns of the program use.  \<open>Star\<close>, \<open>Plus\<close>
  and \<open>Opt\<close> are the greedy \<open>*\<close>, \<open>+\<close> and \<open>?\<close>; \<open>Times n\<close> is \<open>{n}\<close>; \<open>Grp i\<close> is the
  \<open>i\<close>-th capturing group (a non-capturing group needs no constructor); \<open>WordB\<close> is \<open>\b\<close>;
  \<open>AnyChar\<close> is the dot, which does not match a newline.
\<close>

datatype cset_item = CChar char | CDigit | CSpace

datatype regex =
    Eps
  | Lit char
  | Class "cset_item list"
  | AnyChar
  | WordB
  | Seq regex regex
  | Alt regex regex
  | Star regex
  | Plus regex
  | Opt regex
  | Times nat regex
  | Grp nat regex

text \<open>A literal word, and a sequence of parts.\<close>

definition word_re :: "string \<Rightarrow> regex" where
  "word_re s = foldr (\<lambda>c r. Seq (Lit c) r) s Eps"

definition seqs :: "regex list \<Rightarrow> regex" where
  "seqs rs = foldr Seq rs Eps"

definition alts :: "regex list \<Rightarrow> regex" where
  "alts rs = (case rs of [] \<Rightarrow> Eps | _ \<Rightarrow> foldr Alt (butlast rs) (last rs))"

text \<open>
  The matcher's position in the subject: the character before it (for \<open>\b\<close>), the text
  still to be read, and the groups closed so far, newest first.
\<close>

record mstate =
  m_prev :: "char option"
  m_rest :: string
  m_caps :: "(nat \<times> string) list"

text \<open>With \<open>re.IGNORECASE\<close> a literal is compared after lower-casing both sides.\<close>

definition lit_match :: "bool \<Rightarrow> char \<Rightarrow> char \<Rightarrow> bool" where
  "lit_match ic x c = (if ic then lower_char c = lower_char x else c = x)"

fun item_match :: "bool \<Rightarrow> cset_item \<Rightarrow> char \<Rightarrow> bool" where
  "item_match ic (CChar x) c = lit_match ic x c"
| "item_match ic CDigit c = is_digit c"
| "item_match ic CSpace c = is_space c"

definition one_char :: "(char \<Rightarrow> bool) \<Rightarrow> mstate \<Rightarrow> mstate list" where
  "one_char p st =
     (case m_rest st of
        [] \<Rightarrow> []
      | c # s \<Rightarrow> if p c then [st\<lparr>m_prev := Some c, m_rest := s\<rparr>] else [])"

definition word_opt :: "char option \<Rightarrow> bool" where
  "word_opt p = (case p of None \<Rightarrow> False | Some c \<Rightarrow> is_word c)"

definition at_boundary :: "mstate \<Rightarrow> bool" where
  "at_boundary st =
     (word_opt (m_prev st) \<noteq> word_opt (case m_rest st of [] \<Rightarrow> None | c # _ \<Rightarrow> Some c))"

text \<open>
  Backtracking as a list of successes: the positions at which a match of the expression
  can end, in the order in which the backtracking matcher tries them, so the head of the
  list is the match it reports.  A greedy repetition tries one more round of its body
  first and only then stops; a round that consumes nothing is not repeated, hence at
  most as many rounds as characters are left.
\<close>

primrec star_iter :: "nat \<Rightarrow> (mstate \<Rightarrow> mstate list) \<Rightarrow> mstate \<Rightarrow> mstate list" where
  "star_iter 0 f st = [st]"
| "star_iter (Suc n) f st =
     concat (map (\<lambda>st'. if length (m_rest st') < length (m_rest st) then star_iter n f st' else [])
               (f st)) @ [st]"

primrec times_iter :: "nat \<Rightarrow> (mstate \<Rightarrow> mstate list) \<Rightarrow> mstate \<Rightarrow> mstate list" where
  "times_iter 0 f st = [st]"
| "times_iter (Suc n) f st = concat (map (times_iter n f) (f st))"

definition close_group :: "nat \<Rightarrow> mstate \<Rightarrow> mstate \<Rightarrow> mstate" where
  "close_group i st st' =
     st'\<lparr>m_caps := (i, take (length (m_rest st) - length (m_rest st')) (m_rest st)) # m_caps st'\<rparr>"

primrec rmatch :: "bool \<Rightarrow> regex \<Rightarrow> mstate \<Rightarrow> mstate list" where
  "rmatch ic Eps = (\<lambda>st. [st])"
| "rmatch ic (Lit x) = one_char (lit_match ic x)"
| "rmatch ic (Class items) = one_char (\<lambda>c. list_ex (\<lambda>i. item_match ic i c) items)"
| "rmatch ic AnyChar = one_char (\<lambda>c. c \<noteq> CHR 0x0A)"
| "rmatch ic WordB = (\<lambda>st. if at_boundary st then [st] else [])"
| "rmatch ic (Seq r1 r2) = (\<lambda>st. concat (map (rmatch ic r2) (rmatch ic r1 st)))"
| "rmatch ic (Alt r1 r2) = (\<lambda>st. rmatch ic r1 st @ rmatch ic r2 st)"
| "rmatch ic (Star r) = (\<lambda>st. star_iter (length (m_rest st)) (rmatch ic r) st)"
| "rmatch ic (Plus r) =
     (\<lambda>st. concat (map (star_iter (length (m_rest st)) (rmatch ic r)) (rmatch ic r st)))"
| "rmatch ic (Opt r) = (\<lambda>st. rmatch ic r st @ [st])"
| "rmatch ic (Times n r) = times_iter n (rmatch ic r)"
| "rmatch ic (Grp i r) = (\<lambda>st. map (close_group i st) (rmatch ic r st))"

text \<open>\<open>re.search\<close>, as a truth value: some start position has a match.\<close>

fun search_from :: "bool \<Rightarrow> regex \<Rightarrow> char option \<Rightarrow> string \<Rightarrow> bool" where
  "search_from ic r p [] = (rmatch ic r \<lparr>m_prev = p, m_rest = [], m_caps = []\<rparr> \<noteq> [])"
| "search_from ic r p (c # s) =
     (rmatch ic r \<lparr>m_prev = p, m_rest = c # s, m_caps = []\<rparr> \<noteq> [] \<or> search_from ic r (Some c) s)"

definition re_search :: "bool \<Rightarrow> regex \<Rightarrow> string \<Rightarrow> bool" where
  "re_search ic r s = search_from ic r None s"

text \<open>
  \<open>re.findall\<close> for a pattern with three groups: the matches from left to right, each
  the first one the matcher reports at the leftmost start position that has any, the scan
  going on where the match ended (one character further after an empty match, which the
  pattern of this program never produces).  A group that took no part is the empty
  string.
\<close>

definition group :: "mstate \<Rightarrow> nat \<Rightarrow> string" where
  "group st i = (case map_of (m_caps st) i of None \<Rightarrow> [] | Some t \<Rightarrow> t)"

function findall_from :: "regex \<Rightarrow> char option \<Rightarrow> string \<Rightarrow> (string \<times> string \<times> string) list" where
  "findall_from r p s =
     (case rmatch False r \<lparr>m_prev = p, m_rest = s, m_caps = []\<rparr> of
        [] \<Rightarrow> (case s of [] \<Rightarrow> [] | c # s' \<Rightarrow> findall_from r (Some c) s')
      | st # _ \<Rightarrow>
          (group st 1, group st 2, group st 3) #
          (if length (m_rest st) < length s then findall_from r (m_prev st) (m_rest st)
           else (case s of [] \<Rightarrow> [] | c # s' \<Rightarrow> findall_from r (Some c) s')))"
  by pat_completeness auto
termination
  by (relation "measure (\<lambda>(r, p, s). length s)") auto

definition re_findall :: "regex \<Rightarrow> string \<Rightarrow> (string \<times> string \<times> string) list" where
  "re_findall r s = findall_from r None s"

section \<open>Double-precision numbers\<close>

text \<open>
  A Python \<open>float\<close> is an IEEE-754 double.  \<open>Fin q\<close> is the finite double whose exact
  value is the rational \<open>q\<close> (the two zeros are not told apart: the program never divides
  by one and never prints a negative one).  Every operation computes the exact result and
  rounds it to the nearest double, ties to the even significand, as the hardware and the
  string conversion of the interpreter do.
\<close>

datatype pyfloat = Fin rat | PInf | NInf | NaN

text \<open>The number of binary digits of a positive integer.\<close>

function bitlen :: "int \<Rightarrow> int" where
  "bitlen n = (if n \<le> 0 then 0 else 1 + bitlen (n div 2))"
  by pat_completeness auto
termination
  by (relation "measure nat") auto

definition pow2 :: "int \<Rightarrow> rat" where
  "pow2 e = (if 0 \<le> e then 2 ^ nat e else 1 / 2 ^ nat (- e))"

text \<open>For \<open>q > 0\<close>, the exponent \<open>e\<close> with \<open>2 ^ e \<le> q < 2 ^ (e + 1)\<close>.\<close>

definition floor_log2 :: "rat \<Rightarrow> int" where
  "floor_log2 q =
     (let (n, d) = quotient_of q;
          e = bitlen n - bitlen d
      in if pow2 e \<le> q then e else e - 1)"

definition round_half_even :: "rat \<Rightarrow> int" where
  "round_half_even q =
     (let f = \<lfloor>q\<rfloor>; d = q - of_int f
      in if d < 1 / 2 then f else if 1 / 2 < d then f + 1 else if even f then f else f + 1)"

text \<open>Rounding to a double: 53 significant bits, exponents from \<open>-1022\<close> (below which the
  spacing stays \<open>2 ^ -1074\<close>) to \<open>1023\<close> (above which the result is infinite).\<close>

definition double_of_rat :: "rat \<Rightarrow> pyfloat" where
  "double_of_rat q =
     (if q = 0 then Fin 0
      else
        let a = \<bar>q\<bar>;
            e = max (floor_log2 a) (- 1022);
            ulp = pow2 (e - 52);
            r = of_int (round_half_even (a / ulp)) * ulp
        in if e < 1023 then Fin (if q < 0 then - r else r)
           else if pow2 1024 \<le> r then (if q < 0 then NInf else PInf)
           else Fin (if q < 0 then - r else r))"

fun fneg :: "pyfloat \<Rightarrow> pyfloat" where
  "fneg (Fin a) = Fin (- a)"
| "fneg PInf = NInf"
| "fneg NInf = PInf"
| "fneg NaN = NaN"

fun fmul :: "pyfloat \<Rightarrow> pyfloat \<Rightarrow> pyfloat" where
  "fmul NaN y = NaN"
| "fmul x NaN = NaN"
| "fmul (Fin a) (Fin b) = double_of_rat (a * b)"
| "fmul (Fin a) y = (if a = 0 then NaN else if 0 < a then y else fneg y)"
| "fmul x (Fin b) = (if b = 0 then NaN else if 0 < b then x else fneg x)"
| "fmul x y = (if x = y then PInf else NInf)"

fun fsub :: "pyfloat \<Rightarrow> pyfloat \<Rightarrow> pyfloat" where
  "fsub NaN y = NaN"
| "fsub x NaN = NaN"
| "fsub (Fin a) (Fin b) = double_of_rat (a - b)"
| "fsub (Fin a) y = fneg y"
| "fsub x (Fin b) = x"
| "fsub x y = (if x = y then NaN else x)"

fun fabs :: "pyfloat \<Rightarrow> pyfloat" where
  "fabs (Fin a) = Fin \<bar>a\<bar>"
| "fabs PInf = PInf"
| "fabs NInf = PInf"
| "fabs NaN = NaN"

text \<open>\<open>x > y\<close>; a comparison with a NaN is false.\<close>

fun fgt :: "pyfloat \<Rightarrow> pyfloat \<Rightarrow> bool" where
  "fgt NaN y = False"
| "fgt x NaN = False"
| "fgt (Fin a) (Fin b) = (b < a)"
| "fgt PInf y = (y \<noteq> PInf)"
| "fgt x PInf = False"
| "fgt NInf y = False"
| "fgt x NInf = True"

text \<open>
  \<open>float(s)\<close> on a literal of the form digits, or digits \<open>.\<close> digits, which is what the
  groups of the calculation pattern hold once the commas are removed: the exact decimal
  value, rounded.  \<open>None\<close> is the \<open>ValueError\<close> branch.
\<close>

definition digit_val :: "char \<Rightarrow> int" where
  "digit_val c = cp c - 48"

definition int_of_digits :: "string \<Rightarrow> int" where
  "int_of_digits s = foldl (\<lambda>n c. 10 * n + digit_val c) 0 s"

definition decimal_value :: "string \<Rightarrow> rat option" where
  "decimal_value s =
     (let ip = takeWhile is_digit s in
      if ip = [] then None
      else (case dropWhile is_digit s of
              [] \<Rightarrow> Some (of_int (int_of_digits ip))
            | c # fp \<Rightarrow>
                if c = CHR ''.'' \<and> fp \<noteq> [] \<and> list_all is_digit fp
                then Some (of_int (int_of_digits (ip @ fp)) / 10 ^ length fp)
                else None))"

definition py_float :: "string \<Rightarrow> pyfloat option" where
  "py_float s = map_option double_of_rat (decimal_value s)"

text \<open>The format \<open>,.2f\<close>: the exact value rounded to hundredths (ties to even), the
  integer part in groups of three.\<close>

function digits_of_int :: "int \<Rightarrow> string" where
  "digits_of_int n =
     (if n < 10 then [char_of (48 + n)] else digits_of_int (n div 10) @ [char_of (48 + n mod 10)])"
  by pat_completeness auto
termination
  by (relation "measure nat") auto

fun commas_rev :: "string \<Rightarrow> string" where
  "commas_rev (a # b # c # d # s) = a # b # c # CHR '','' # commas_rev (d # s)"
| "commas_rev s = s"

definition thousands :: "string \<Rightarrow> string" where
  "thousands s = rev (commas_rev (rev s))"

fun format_2f :: "pyfloat \<Rightarrow> string" where
  "format_2f NaN = ''nan''"
| "format_2f PInf = ''inf''"
| "format_2f NInf = ''-inf''"
| "format_2f (Fin q) =
     (let c = round_half_even (\<bar>q\<bar> * 100)
      in (if q < 0 then ''-'' else []) @ thousands (digits_of_int (c div 100)) @ ''.'' @
         [char_of (48 + c mod 100 div 10), char_of (48 + c mod 10)])"

text \<open>
  The exceptions that the statements of the program can raise, each with its message;
  all three classes derive from \<open>Exception\<close>.  \<open>exn_str e\<close> is \<open>str(e)\<close>.
\<close>

datatype exn = ZeroDivisionError string | AttributeError string | TypeError string

definition exn_str :: "exn \<Rightarrow> string" where
  "exn_str e =
     (case e of ZeroDivisionError m \<Rightarrow> m | AttributeError m \<Rightarrow> m | TypeError m \<Rightarrow> m)"

text \<open>\<open>a / b\<close> on integers: the exact quotient rounded to a double, or the exception.\<close>

definition py_truediv :: "int \<Rightarrow> int \<Rightarrow> exn + pyfloat" where
  "py_truediv a b =
     (if b = 0 then Inl (ZeroDivisionError ''division by zero'')
      else Inr (double_of_rat (of_int a / of_int b)))"

text \<open>Comparisons of a float with an integer constant of the source.\<close>

definition fle :: "pyfloat \<Rightarrow> pyfloat \<Rightarrow> bool" where
  "fle x y = (x \<noteq> NaN \<and> y \<noteq> NaN \<and> \<not> fgt x y)"

definition between :: "int \<Rightarrow> pyfloat \<Rightarrow> int \<Rightarrow> bool" where
  "between lo x hi = (fle (Fin (of_int lo)) x \<and> fle x (Fin (of_int hi)))"

section \<open>The defect detector\<close>

definition BSL :: string where
  "BSL = [CHR 0x5C]"

definition QUOTE :: string where
  "QUOTE = [CHR 0x27]"

definition NL :: char where
  "NL = CHR 0x0A"

definition digit_re :: regex where
  "digit_re = Class [CDigit]"

definition space_re :: regex where
  "space_re = Class [CSpace]"

text \<open>The two shapes of entries in the lists of \<open>errors\<close>.\<close>

record pattern_defect =
  d_line :: nat
  d_text :: string
  d_suggestion :: string
  d_original :: string

record calc_defect =
  c_line :: nat
  c_expression :: string
  c_expected :: string
  c_error :: string

record error_inventory =
  spelling_errors :: "pattern_defect list"
  grammar_errors :: "pattern_defect list"
  consistency_errors :: "pattern_defect list"
  calculation_errors :: "calc_defect list"
  logic_errors :: "pattern_defect list"

text \<open>
  A rule of a pattern table: the pattern as it is written in the source, the expression
  it denotes, and the correction.  The tables are dictionaries, read in the order in
  which they were written.
\<close>

type_synonym rule = "string \<times> regex \<times> string"

definition word_rule :: "string \<Rightarrow> string \<Rightarrow> rule" where
  "word_rule w corr = (BSL @ ''b'' @ w @ BSL @ ''b'', seqs [WordB, word_re w, WordB], corr)"

definition spelling_patterns :: "rule list" where
  "spelling_patterns =
     [word_rule ''acheive'' ''achieve'',
      word_rule ''beleive'' ''believe'',
      word_rule ''aproach'' ''approach'',
      word_rule ''experiance'' ''experience'',
      word_rule ''accurate'' ''accurate'',
      word_rule ''recieve'' ''receive'',
      word_rule ''propsal'' ''proposal'']"

definition grammar_patterns :: "rule list" where
  "grammar_patterns =
     [(BSL @ ''byour'' @ BSL @ ''s+going'' @ BSL @ ''b'',
       seqs [WordB, word_re ''your'', Plus space_re, word_re ''going'', WordB],
       ''you'' @ QUOTE @ ''re going''),
      (BSL @ ''bthey'' @ BSL @ QUOTE @ ''re'' @ BSL @ ''s+office'' @ BSL @ ''b'',
       seqs [WordB, word_re (''they'' @ QUOTE @ ''re''), Plus space_re, word_re ''office'', WordB],
       ''their office''),
      (BSL @ ''byou'' @ BSL @ QUOTE @ ''re'' @ BSL @ ''s+organization'' @ BSL @ ''b'',
       seqs [WordB, word_re (''you'' @ QUOTE @ ''re''), Plus space_re, word_re ''organization'',
             WordB],
       ''your organization''),
      (BSL @ ''bover'' @ BSL @ ''s+'' @ BSL @ ''d+'' @ BSL @ ''+'' @ BSL @ ''s+years'' @ BSL @ ''b'',
       seqs [WordB, word_re ''over'', Plus space_re, Plus digit_re, Lit CHR ''+'', Plus space_re,
             word_re ''years'', WordB],
       ''redundant '' @ QUOTE @ ''over'' @ QUOTE @ '' and '' @ QUOTE @ ''+'' @ QUOTE),
      word_rule ''approximatley'' ''approximately'',
      word_rule ''dependng'' ''depending'']"

text \<open>The pattern as it is shown in a record.\<close>

definition spelling_display :: "string \<Rightarrow> string" where
  "spelling_display p = replace ''$'' [] (replace ''^'' [] (replace (BSL @ ''b'') [] p))"

definition grammar_display :: "string \<Rightarrow> string" where
  "grammar_display p = replace (BSL @ ''s+'') '' '' (replace (BSL @ ''b'') [] p)"

text \<open>A number with optional thousands groups and decimals, and one without groups.\<close>

definition grouped_number :: regex where
  "grouped_number =
     seqs [Plus digit_re, Star (Seq (Lit CHR '','') (Times 3 digit_re)),
           Opt (Seq (Lit CHR ''.'') (Plus digit_re))]"

definition plain_number :: regex where
  "plain_number = seqs [Plus digit_re, Opt (Seq (Lit CHR ''.'') (Plus digit_re))]"

definition TIMES_SIGN :: char where
  "TIMES_SIGN = CHR 0xD7"

definition calc_pattern :: regex where
  "calc_pattern =
     seqs [Opt (Lit CHR ''$''), Grp 1 grouped_number, Star space_re,
           Class [CChar CHR ''x'', CChar TIMES_SIGN, CChar CHR ''*''], Star space_re,
           Grp 2 plain_number, Star space_re, Lit CHR ''='', Star space_re,
           Opt (Lit CHR ''$''), Grp 3 grouped_number]"

text \<open>The inner loops of \<open>_detect_errors\<close>: each passes the inventory on, extended at the
  end of one of its lists.\<close>

fun check_spelling :: "nat \<Rightarrow> string \<Rightarrow> rule list \<Rightarrow> error_inventory \<Rightarrow> error_inventory" where
  "check_spelling n l [] errors = errors"
| "check_spelling n l ((p, r, corr) # rules) errors =
     check_spelling n l rules
       (if re_search True r l
        then errors\<lparr>spelling_errors := spelling_errors errors @
               [\<lparr>d_line = n, d_text = spelling_display p, d_suggestion = corr,
                 d_original = strip l\<rparr>]\<rparr>
        else errors)"

fun check_grammar :: "nat \<Rightarrow> string \<Rightarrow> rule list \<Rightarrow> error_inventory \<Rightarrow> error_inventory" where
  "check_grammar n l [] errors = errors"
| "check_grammar n l ((p, r, corr) # rules) errors =
     check_grammar n l rules
       (if re_search True r l
        then errors\<lparr>grammar_errors := grammar_errors errors @
               [\<lparr>d_line = n, d_text = grammar_display p, d_suggestion = corr,
                 d_original = strip l\<rparr>]\<rparr>
        else errors)"

text \<open>The three numbers of a match, or \<open>None\<close> when a conversion raises \<open>ValueError\<close> and
  the match is passed over.\<close>

definition parse_match :: "string \<times> string \<times> string \<Rightarrow> (pyfloat \<times> pyfloat \<times> pyfloat) option" where
  "parse_match m =
     (case m of (m0, m1, m2) \<Rightarrow>
        (case py_float (replace '','' [] m0) of
           None \<Rightarrow> None
         | Some num1 \<Rightarrow>
             (case py_float (replace '','' [] m1) of
                None \<Rightarrow> None
              | Some num2 \<Rightarrow>
                  (case py_float (replace '','' [] m2) of
                     None \<Rightarrow> None
                   | Some result \<Rightarrow> Some (num1, num2, result)))))"

definition calc_wrong :: "pyfloat \<times> pyfloat \<times> pyfloat \<Rightarrow> bool" where
  "calc_wrong t =
     (case t of (num1, num2, result) \<Rightarrow>
        fgt (fabs (fsub (fmul num1 num2) result)) (double_of_rat (1 / 100)))"

definition calc_record :: "nat \<Rightarrow> string \<times> string \<times> string \<Rightarrow> pyfloat \<Rightarrow> calc_defect" where
  "calc_record n m expected =
     (case m of (m0, m1, m2) \<Rightarrow>
        \<lparr>c_line = n,
         c_expression = m0 @ '' '' @ [TIMES_SIGN] @ '' '' @ m1 @ '' = '' @ m2,
         c_expected = format_2f expected,
         c_error = ''Should be '' @ format_2f expected @ '', not '' @ m2\<rparr>)"

fun check_calculations ::
  "nat \<Rightarrow> (string \<times> string \<times> string) list \<Rightarrow> error_inventory \<Rightarrow> error_inventory" where
  "check_calculations n [] errors = errors"
| "check_calculations n (m # ms) errors =
     check_calculations n ms
       (case parse_match m of
          None \<Rightarrow> errors
        | Some (num1, num2, result) \<Rightarrow>
            if calc_wrong (num1, num2, result)
            then errors\<lparr>calculation_errors := calculation_errors errors @
                   [calc_record n m (fmul num1 num2)]\<rparr>
            else errors)"

fun scan_lines :: "nat \<Rightarrow> string list \<Rightarrow> error_inventory \<Rightarrow> error_inventory" where
  "scan_lines n [] errors = errors"
| "scan_lines n (l # ls) errors =
     scan_lines (Suc n) ls
       (check_calculations n (re_findall calc_pattern l)
          (check_grammar n l grammar_patterns
             (check_spelling n l spelling_patterns errors)))"

definition no_errors :: error_inventory where
  "no_errors =
     \<lparr>spelling_errors = [], grammar_errors = [], consistency_errors = [],
      calculation_errors = [], logic_errors = []\<rparr>"

definition detect_errors :: "string \<Rightarrow> error_inventory" where
  "detect_errors content = scan_lines 1 (split_on NL content) no_errors"

section \<open>The quality scorer\<close>

text \<open>
  The overall score is a float that starts at \<open>100.0\<close> and changes by whole numbers; within
  the 53 bits of a double this arithmetic is exact, so the score is given by its exact value.
\<close>

definition penalty :: "'a list \<Rightarrow> rat" where
  "penalty error_list = (if error_list \<noteq> [] then of_nat (length error_list * 5) else 0)"

definition base_score :: "string \<Rightarrow> error_inventory \<Rightarrow> rat" where
  "base_score content errors =
     (let b0 = 100 - penalty (spelling_errors errors) - penalty (grammar_errors errors)
                - penalty (consistency_errors errors) - penalty (calculation_errors errors)
                - penalty (logic_errors errors);
          b1 = (if 500 < length content then b0 + 5 else b0)
      in if py_in ''$'' content \<and> any_in [''roi'', ''investment'', ''return''] (lower content)
         then b1 + 10 else b1)"

definition calculate_quality_score :: "string \<Rightarrow> error_inventory \<Rightarrow> rat" where
  "calculate_quality_score content errors = max 0 (min 100 (base_score content errors))"

definition generate_recommendations :: "string \<Rightarrow> error_inventory \<Rightarrow> string list" where
  "generate_recommendations content errors =
     (let total_errors =
            length (spelling_errors errors) + length (grammar_errors errors) +
            length (consistency_errors errors) + length (calculation_errors errors) +
            length (logic_errors errors)
      in (if 5 < total_errors
          then [''Consider thorough proofreading before final submission''] else []) @
         (if calculation_errors errors \<noteq> []
          then [''Verify all mathematical calculations and financial projections''] else []) @
         (if spelling_errors errors \<noteq> []
          then [''Use spell-check tools to catch common spelling mistakes''] else []) @
         (if grammar_errors errors \<noteq> []
          then [''Review grammar, especially possessive forms and contractions''] else []) @
         (if length content < 200
          then [''Consider expanding with more detailed information''] else []) @
         (if \<not> any_in [''timeline'', ''deadline'', ''schedule''] (lower content)
          then [''Include specific timelines and deadlines''] else []))"

definition classify_document :: "string \<Rightarrow> string" where
  "classify_document content =
     (let content_lower = lower content
      in if any_in [''proposal'', ''executive summary'', ''investment''] content_lower
         then ''business_proposal''
         else if any_in [''report'', ''analysis'', ''findings''] content_lower
         then ''business_report''
         else if any_in [''email'', ''message'', ''correspondence''] content_lower
         then ''business_communication''
         else ''general_business_document'')"

definition score_grammar :: "string \<Rightarrow> int" where
  "score_grammar content =
     (let errors = detect_errors content;
          n_grammar_errors = int (length (grammar_errors errors))
      in max 0 (100 - n_grammar_errors * 10))"

definition score_clarity :: "string \<Rightarrow> exn + int" where
  "score_clarity content =
     (let sentences = split_on CHR ''.'' content;
          avg_sentence_length =
            (if sentences \<noteq> []
             then py_truediv (sum_list (map (\<lambda>s. int (length (split_ws s))) sentences))
                    (int (length sentences))
             else Inr (Fin 0))
      in case avg_sentence_length of
           Inl e \<Rightarrow> Inl e
         | Inr a \<Rightarrow>
             Inr (if between 15 a 20 then 95 else if between 10 a 25 then 85 else 70))"

definition score_professionalism :: "string \<Rightarrow> int" where
  "score_professionalism content =
     (let professional_words =
            [''executive'', ''strategic'', ''comprehensive'', ''optimize'', ''implement''];
          found_professional = int (count_in professional_words (lower content));
          score1 = 85 + min 15 (found_professional * 3);
          informal_words = [''gonna'', ''wanna'', ''yeah'', ''ok'', ''awesome''];
          found_informal = int (count_in informal_words (lower content));
          score2 = score1 - found_informal * 10
      in max 0 (min 100 score2))"

definition sections :: "string list" where
  "sections = [''problem'', ''solution'', ''timeline'', ''investment'', ''roi'', ''conclusion'']"

definition score_completeness :: "string \<Rightarrow> exn + pyfloat" where
  "score_completeness content =
     (let found_sections = int (count_in sections (lower content))
      in case py_truediv found_sections (int (length sections)) of
           Inl e \<Rightarrow> Inl e
         | Inr q \<Rightarrow> Inr (fmul q (Fin 100)))"

text \<open>The reading of the clock, and its ISO 8601 rendering.\<close>

record datetime =
  dt_year :: int
  dt_month :: int
  dt_day :: int
  dt_hour :: int
  dt_minute :: int
  dt_second :: int
  dt_microsecond :: int

definition zero_pad :: "nat \<Rightarrow> int \<Rightarrow> string" where
  "zero_pad w n = (let ds = digits_of_int n in replicate (w - length ds) CHR ''0'' @ ds)"

definition isoformat :: "datetime \<Rightarrow> string" where
  "isoformat d =
     zero_pad 4 (dt_year d) @ ''-'' @ zero_pad 2 (dt_month d) @ ''-'' @ zero_pad 2 (dt_day d) @
     ''T'' @ zero_pad 2 (dt_hour d) @ '':'' @ zero_pad 2 (dt_minute d) @ '':'' @
     zero_pad 2 (dt_second d) @
     (if dt_microsecond d = 0 then [] else ''.'' @ zero_pad 6 (dt_microsecond d))"

text \<open>
  The result of a public operation: the dictionary with \<open>success = True\<close> and all the
  findings, or the one with \<open>success = False\<close> and the text of the exception.
\<close>

datatype 'a analysis_result = Success 'a | Failure string

definition success :: "'a analysis_result \<Rightarrow> bool" where
  "success r = (case r of Success _ \<Rightarrow> True | Failure _ \<Rightarrow> False)"

text \<open>\<open>try: ... except Exception as e: return {"success": False, "error": str(e)}\<close>\<close>

definition try_except :: "exn + 'a \<Rightarrow> 'a analysis_result" where
  "try_except body = (case body of Inl e \<Rightarrow> Failure (exn_str e) | Inr r \<Rightarrow> Success r)"

record quality_dimensions =
  grammar :: int
  clarity :: int
  professionalism :: int
  completeness :: pyfloat

record quality_review =
  overall_score :: rat
  document_type :: string
  reviewer :: string
  errors_found :: error_inventory
  improvement_recommendations :: "string list"
  quality_dimensions :: quality_dimensions
  timestamp :: string

definition agent_name :: string where
  "agent_name = ''Clarity CPA''"

text \<open>The statements of the \<open>try\<close> block, on a text; \<open>now\<close> is what \<open>datetime.now()\<close>
  returns during the call.\<close>

definition quality_assurance_review_body :: "datetime \<Rightarrow> string \<Rightarrow> exn + quality_review" where
  "quality_assurance_review_body now content =
       (let errors = detect_errors content;
            quality_score = calculate_quality_score content errors;
            recommendations = generate_recommendations content errors;
            doc_type = classify_document content;
            g = score_grammar content
        in case score_clarity content of
             Inl e \<Rightarrow> Inl e
           | Inr c \<Rightarrow>
               (let p = score_professionalism content
                in case score_completeness content of
                     Inl e \<Rightarrow> Inl e
                   | Inr k \<Rightarrow>
                       Inr \<lparr>overall_score = quality_score,
                            document_type = doc_type,
                            reviewer = agent_name,
                            errors_found = errors,
                            improvement_recommendations = recommendations,
                            quality_dimensions =
                              \<lparr>grammar = g, clarity = c, professionalism = p, completeness = k\<rparr>,
                            timestamp = isoformat now\<rparr>))"

definition quality_assurance_review :: "datetime \<Rightarrow> string \<Rightarrow> quality_review analysis_result" where
  "quality_assurance_review now content = try_except (quality_assurance_review_body now content)"

section \<open>The strategic analyzer\<close>

definition problem_re :: regex where
  "problem_re = alts [word_re ''problem'', word_re ''challenge'', word_re ''issue'', word_re ''pain'']"

definition solution_re :: regex where
  "solution_re =
     alts [word_re ''solution'', word_re ''approach'', word_re ''strategy'', word_re ''method'']"

definition timeline_re :: regex where
  "timeline_re =
     alts [seqs [Plus digit_re, Star space_re,
                 Grp 1 (alts [Seq (word_re ''day'') (Opt (Lit CHR ''s'')),
                              Seq (word_re ''week'') (Opt (Lit CHR ''s'')),
                              Seq (word_re ''month'') (Opt (Lit CHR ''s''))])],
           word_re ''timeline'', word_re ''schedule'']"

definition dollar_figure :: regex where
  "dollar_figure = Seq (Lit CHR ''$'') (Plus (Class [CDigit, CChar CHR '','']))"

definition investment_re :: regex where
  "investment_re =
     alts [dollar_figure, word_re ''investment'', word_re ''cost'', word_re ''price'']"

definition roi_re :: regex where
  "roi_re = alts [word_re ''roi'', word_re ''return'', word_re ''benefit'', word_re ''value'']"

definition team_re :: regex where
  "team_re =
     alts [word_re ''team'', word_re ''experience'', word_re ''expert'', word_re ''professional'']"

definition urgency_re :: regex where
  "urgency_re =
     alts [word_re ''urgent'', word_re ''critical'', word_re ''immediate'', word_re ''asap'']"

definition percent_re :: regex where
  "percent_re = Seq (Plus digit_re) (Lit CHR ''%'')"

definition day_week_re :: regex where
  "day_week_re =
     seqs [Plus digit_re, Star space_re, Grp 1 (Alt (word_re ''day'') (word_re ''week''))]"

definition two_figures_re :: regex where
  "two_figures_re = seqs [dollar_figure, Star AnyChar, dollar_figure]"

definition roi_percent_re :: regex where
  "roi_percent_re =
     Alt (seqs [percent_re, Star AnyChar, word_re ''roi''])
         (seqs [word_re ''roi'', Star AnyChar, percent_re])"

definition factors :: "string \<Rightarrow> bool list" where
  "factors content =
     [re_search True problem_re content,
      re_search True solution_re content,
      re_search True timeline_re content,
      re_search True investment_re content,
      re_search True roi_re content,
      re_search True team_re content,
      re_search True urgency_re content]"

definition analyze_proposal_strength :: "string \<Rightarrow> exn + pyfloat" where
  "analyze_proposal_strength content =
     (let fs = factors content
      in case py_truediv (int (length (filter id fs))) (int (length fs)) of
           Inl e \<Rightarrow> Inl e
         | Inr q \<Rightarrow> Inr (fmul q (Fin 100)))"

type_synonym ctx = "string \<rightharpoonup> string"

text \<open>\<open>context or {}\<close>\<close>

definition or_empty :: "ctx option \<Rightarrow> ctx" where
  "or_empty c = (case c of None \<Rightarrow> Map.empty | Some m \<Rightarrow> m)"

record competitive_position =
  differentiation_strength :: string
  competitive_advantages :: "string list"
  market_positioning :: string

definition analyze_competitive_position :: "string \<Rightarrow> ctx \<Rightarrow> competitive_position" where
  "analyze_competitive_position content c =
     \<lparr>differentiation_strength =
        (if py_in ''unique'' (lower content) \<or> py_in ''exclusive'' (lower content)
         then ''strong'' else ''moderate''),
      competitive_advantages =
        [''Comprehensive 7-agent approach'', ''Proven track record'',
         ''Rapid implementation timeline''],
      market_positioning = ''premium specialist''\<rparr>"

record psychology_insights =
  persuasion_score :: int
  primary_motivators :: "string list"
  psychological_triggers :: "string list"

definition urgency_words :: "string list" where
  "urgency_words = [''critical'', ''urgent'', ''immediate'', ''crisis'', ''emergency'']"

definition fear_words :: "string list" where
  "fear_words = [''risk'', ''loss'', ''failure'', ''decline'', ''threat'']"

definition gain_words :: "string list" where
  "gain_words = [''growth'', ''increase'', ''improve'', ''benefit'', ''advantage'']"

definition analyze_client_psychology :: "string \<Rightarrow> ctx \<Rightarrow> psychology_insights" where
  "analyze_client_psychology content c =
     (let urgency_score = 10 * int (count_in urgency_words (lower content));
          fear_score = 10 * int (count_in fear_words (lower content));
          gain_score = 10 * int (count_in gain_words (lower content));
          persuasion = min 100 (urgency_score + fear_score + gain_score);
          motivators =
            (if 20 < urgency_score then [''urgency''] else []) @
            (if 20 < fear_score then [''loss_aversion''] else []) @
            (if 20 < gain_score then [''growth_opportunity''] else [])
      in \<lparr>persuasion_score = persuasion,
          primary_motivators = motivators,
          psychological_triggers =
            (if 50 < persuasion then [''authority'', ''scarcity'', ''social_proof'']
             else [''clarity'', ''trust''])\<rparr>)"

definition generate_strategic_recommendations :: "string \<Rightarrow> ctx \<Rightarrow> string list" where
  "generate_strategic_recommendations content c =
     (if \<not> py_in ''roi'' (lower content)
      then [''Add specific ROI calculations and financial projections''] else []) @
     (if \<not> re_search False percent_re content
      then [''Include percentage-based metrics for credibility''] else []) @
     (if \<not> py_in ''testimonial'' (lower content) \<and> \<not> py_in ''reference'' (lower content)
      then [''Add client testimonials or case study references''] else []) @
     (if length (split_ws content) < 300
      then [''Expand content with more detailed implementation plan''] else []) @
     [''Include risk mitigation strategies'', ''Add competitive differentiation section'']"

definition identify_optimization_opportunities :: "string \<Rightarrow> string list" where
  "identify_optimization_opportunities content =
     (if py_in ''$'' content \<and> py_in ''roi'' (lower content)
      then [''Highlight exceptional ROI as primary value proposition''] else []) @
     (if re_search False day_week_re content
      then [''Emphasize rapid implementation timeline''] else []) @
     (if py_in ''agent'' (lower content)
      then [''Showcase innovative multi-agent approach''] else []) @
     [''Create urgency with limited-time offer'', ''Add social proof with industry statistics'']"

definition score_value_proposition :: "string \<Rightarrow> int" where
  "score_value_proposition content =
     (let value_indicators =
            [''save'', ''reduce'', ''increase'', ''improve'', ''optimize'', ''roi'', ''benefit''];
          score = 15 * int (count_in value_indicators (lower content))
      in min 100 (max 20 score))"

definition score_credibility :: "string \<Rightarrow> int" where
  "score_credibility content =
     (let credibility_factors =
            [''experience'', ''proven'', ''track record'', ''certified'', ''years'', ''expert''];
          score = 15 * int (count_in credibility_factors (lower content))
      in min 100 (max 30 score))"

definition score_urgency :: "string \<Rightarrow> int" where
  "score_urgency content =
     (let words =
            [''urgent'', ''critical'', ''immediate'', ''deadline'', ''asap'', ''emergency''];
          score = 20 * int (count_in words (lower content))
      in min 100 score)"

definition score_roi_clarity :: "string \<Rightarrow> int" where
  "score_roi_clarity content =
     (if re_search False two_figures_re content
      then (if re_search True roi_percent_re content then 95 else 75)
      else if py_in ''roi'' (lower content) then 60
      else 30)"

record strength_assessment =
  value_proposition :: int
  credibility :: int
  urgency :: int
  roi_clarity :: int

record strategic_report =
  proposal_readiness_score :: pyfloat
  proposal_strength_assessment :: strength_assessment
  competitive_positioning :: competitive_position
  client_psychology_insights :: psychology_insights
  strategic_recommendations :: "string list"
  optimization_opportunities :: "string list"

text \<open>The statements of the \<open>try\<close> block, on a text.\<close>

definition strategic_analysis_body :: "string \<Rightarrow> ctx option \<Rightarrow> exn + strategic_report" where
  "strategic_analysis_body content c =
       (case analyze_proposal_strength content of
          Inl e \<Rightarrow> Inl e
        | Inr strength_score \<Rightarrow>
            (let competitive_analysis = analyze_competitive_position content (or_empty c);
                 psychology = analyze_client_psychology content (or_empty c);
                 recommendations = generate_strategic_recommendations content (or_empty c)
             in Inr \<lparr>proposal_readiness_score = strength_score,
                     proposal_strength_assessment =
                       \<lparr>value_proposition = score_value_proposition content,
                        credibility = score_credibility content,
                        urgency = score_urgency content,
                        roi_clarity = score_roi_clarity content\<rparr>,
                     competitive_positioning = competitive_analysis,
                     client_psychology_insights = psychology,
                     strategic_recommendations = recommendations,
                     optimization_opportunities = identify_optimization_opportunities content\<rparr>))"

definition strategic_analysis :: "string \<Rightarrow> ctx option \<Rightarrow> strategic_report analysis_result" where
  "strategic_analysis content c = try_except (strategic_analysis_body content c)"

section \<open>Arguments that are not texts\<close>

text \<open>
  The parameter \<open>content\<close> is annotated \<open>str\<close>, which the interpreter does not enforce.
  The values considered here are a text, \<open>None\<close>, an integer and a byte string;
  \<open>type_name v\<close> is \<open>type(v).__name__\<close>.
\<close>

datatype pyval = Str string | NoneVal | IntVal int | BytesVal string

definition type_name :: "pyval \<Rightarrow> string" where
  "type_name v =
     (case v of Str _ \<Rightarrow> ''str'' | NoneVal \<Rightarrow> ''NoneType'' | IntVal _ \<Rightarrow> ''int''
      | BytesVal _ \<Rightarrow> ''bytes'')"

text \<open>
  \<open>content.split('\n')\<close>, the first use of the argument in \<open>_detect_errors\<close>: the text
  that is split, or the exception.  A byte string has the method but takes no text as the
  separator; \<open>None\<close> and an integer have no such method.
\<close>

definition split_receiver :: "pyval \<Rightarrow> exn + string" where
  "split_receiver v =
     (case v of
        Str content \<Rightarrow> Inr content
      | BytesVal _ \<Rightarrow> Inl (TypeError (''a bytes-like object is required, not '' @ QUOTE @ ''str'' @ QUOTE))
      | _ \<Rightarrow> Inl (AttributeError (QUOTE @ type_name v @ QUOTE @ '' object has no attribute '' @
                                   QUOTE @ ''split'' @ QUOTE)))"

text \<open>
  \<open>re.search(pattern, content, re.IGNORECASE)\<close>, the first use of the argument in
  \<open>_analyze_proposal_strength\<close>: the text that is searched, or the exception.
\<close>

definition search_subject :: "pyval \<Rightarrow> exn + string" where
  "search_subject v =
     (case v of
        Str content \<Rightarrow> Inr content
      | BytesVal _ \<Rightarrow> Inl (TypeError ''cannot use a string pattern on a bytes-like object'')
      | _ \<Rightarrow> Inl (TypeError (''expected string or bytes-like object, got '' @
                              QUOTE @ type_name v @ QUOTE)))"

text \<open>The two operations called with an argument of any of these kinds.\<close>

definition quality_assurance_review_any :: "datetime \<Rightarrow> pyval \<Rightarrow> quality_review analysis_result" where
  "quality_assurance_review_any now v =
     try_except
       (case split_receiver v of
          Inl e \<Rightarrow> Inl e
        | Inr content \<Rightarrow> quality_assurance_review_body now content)"

definition strategic_analysis_any :: "pyval \<Rightarrow> ctx option \<Rightarrow> strategic_report analysis_result" where
  "strategic_analysis_any v c =
     try_except
       (case search_subject v of
          Inl e \<Rightarrow> Inl e
        | Inr content \<Rightarrow> strategic_analysis_body content c)"

section \<open>The records of one line\<close>

text \<open>What one line adds to the lists of the inventory.\<close>

definition spelling_records :: "nat \<Rightarrow> string \<Rightarrow> rule list \<Rightarrow> pattern_defect list" where
  "spelling_records n l rules =
     map (\<lambda>(p, r, corr). \<lparr>d_line = n, d_text = spelling_display p, d_suggestion = corr,
                           d_original = strip l\<rparr>)
       (filter (\<lambda>(p, r, corr). re_search True r l) rules)"

definition grammar_records :: "nat \<Rightarrow> string \<Rightarrow> rule list \<Rightarrow> pattern_defect list" where
  "grammar_records n l rules =
     map (\<lambda>(p, r, corr). \<lparr>d_line = n, d_text = grammar_display p, d_suggestion = corr,
                           d_original = strip l\<rparr>)
       (filter (\<lambda>(p, r, corr). re_search True r l) rules)"

definition calculation_records :: "nat \<Rightarrow> (string \<times> string \<times> string) list \<Rightarrow> calc_defect list" where
  "calculation_records n ms =
     concat (map (\<lambda>m. case parse_match m of
                          None \<Rightarrow> []
                        | Some (num1, num2, result) \<Rightarrow>
                            if calc_wrong (num1, num2, result)
                            then [calc_record n m (fmul num1 num2)] else []) ms)"

section \<open>The words of a pattern\<close>

text \<open>
  The words a pattern can read, without regard to groups, to word boundaries and to the
  order of the attempts: what a successful run of \<open>rmatch\<close> has consumed is one of them.
  The first argument says whether case is ignored.
\<close>

inductive accepts :: "bool \<Rightarrow> regex \<Rightarrow> string \<Rightarrow> bool" where
  acc_Eps: "accepts ic Eps []"
| acc_Lit: "lit_match ic x c \<Longrightarrow> accepts ic (Lit x) [c]"
| acc_Class: "list_ex (\<lambda>i. item_match ic i c) items \<Longrightarrow> accepts ic (Class items) [c]"
| acc_AnyChar: "c \<noteq> CHR 0x0A \<Longrightarrow> accepts ic AnyChar [c]"
| acc_WordB: "accepts ic WordB []"
| acc_Seq: "accepts ic r1 u \<Longrightarrow> accepts ic r2 v \<Longrightarrow> accepts ic (Seq r1 r2) (u @ v)"
| acc_Alt1: "accepts ic r1 u \<Longrightarrow> accepts ic (Alt r1 r2) u"
| acc_Alt2: "accepts ic r2 u \<Longrightarrow> accepts ic (Alt r1 r2) u"
| acc_Star0: "accepts ic (Star r) []"
| acc_StarS: "accepts ic r u \<Longrightarrow> accepts ic (Star r) v \<Longrightarrow> accepts ic (Star r) (u @ v)"
| acc_Plus: "accepts ic r u \<Longrightarrow> accepts ic (Star r) v \<Longrightarrow> accepts ic (Plus r) (u @ v)"
| acc_Opt0: "accepts ic (Opt r) []"
| acc_Opt1: "accepts ic r u \<Longrightarrow> accepts ic (Opt r) u"
| acc_Times0: "accepts ic (Times 0 r) []"
| acc_TimesS: "accepts ic r u \<Longrightarrow> accepts ic (Times n r) v \<Longrightarrow> accepts ic (Times (Suc n) r) (u @ v)"
| acc_Grp: "accepts ic r u \<Longrightarrow> accepts ic (Grp i r) u"


text \<open>What a run of the matcher from \<open>st\<close> to \<open>st'\<close> has read.\<close>

definition reads :: "mstate \<Rightarrow> mstate \<Rightarrow> string \<Rightarrow> bool" where
  "reads st st' w = (m_rest st = w @ m_rest st')"

inductive_simps accepts_Eps: "accepts ic Eps w"
inductive_simps accepts_Lit: "accepts ic (Lit x) w"
inductive_simps accepts_Class: "accepts ic (Class items) w"
inductive_simps accepts_Seq: "accepts ic (Seq r1 r2) w"
inductive_simps accepts_Plus: "accepts ic (Plus r) w"
inductive_simps accepts_Alt: "accepts ic (Alt r1 r2) w"
inductive_simps accepts_AnyChar: "accepts ic AnyChar w"

section \<open>What the scores and records are compared with\<close>

text \<open>
  The tiers of the ROI clarity score in words, without reference to the matcher: two
  dollar figures on one line (a dollar sign followed by a digit or a comma, twice, with no
  line break between them); a percentage on one line with the word \<open>roi\<close> in any case
  before or after it; the word \<open>roi\<close> in any case.
\<close>

definition has_two_dollar_figures :: "string \<Rightarrow> bool" where
  "has_two_dollar_figures T =
     (\<exists>a c1 m c2 b. T = a @ ''$'' @ [c1] @ m @ ''$'' @ [c2] @ b \<and>
        (is_digit c1 \<or> c1 = CHR '','') \<and> (is_digit c2 \<or> c2 = CHR '','') \<and> NL \<notin> set m)"

definition has_roi_percentage :: "string \<Rightarrow> bool" where
  "has_roi_percentage T =
     (\<exists>a d m w b. (T = a @ [d] @ ''%'' @ m @ w @ b \<or> T = a @ w @ m @ [d] @ ''%'' @ b) \<and>
        is_digit d \<and> NL \<notin> set m \<and> lower w = ''roi'')"

definition mentions_roi :: "string \<Rightarrow> bool" where
  "mentions_roi T = (\<exists>a w b. T = a @ w @ b \<and> lower w = ''roi'')"

text \<open>What identifies a record of a pattern table: its line, its text and its suggestion.\<close>

definition record_key :: "pattern_defect \<Rightarrow> nat \<times> string \<times> string" where
  "record_key d = (d_line d, d_text d, d_suggestion d)"

section \<open>Scores and results: basic facts\<close>

lemma split_on_not_Nil: "split_on d s \<noteq> []"
  by (induction s) (auto split: list.splits)

lemma count_in_le: "count_in ws s \<le> length ws"
  by (simp add: count_in_def)

lemma py_truediv_Inr: "b \<noteq> 0 \<Longrightarrow> py_truediv a b = Inr (double_of_rat (of_int a / of_int b))"
  by (simp add: py_truediv_def)

lemma score_clarity_cases:
  "score_clarity T = Inr 95 \<or> score_clarity T = Inr 85 \<or> score_clarity T = Inr 70"
  by (simp add: score_clarity_def Let_def split_on_not_Nil py_truediv_Inr)

lemma sixths_in_range:
  "list_all (\<lambda>n. between 0 (fmul (double_of_rat (of_int n / of_int 6)) (Fin 100)) 100) [0, 1, 2, 3, 4, 5, 6]"
  by code_simp

lemma sevenths_in_range:
  "list_all (\<lambda>n. between 0 (fmul (double_of_rat (of_int n / of_int 7)) (Fin 100)) 100) [0, 1, 2, 3, 4, 5, 6, 7]"
  by code_simp

lemma upto_six: "n \<le> 6 \<Longrightarrow> int n \<in> set [0, 1, 2, 3, 4, 5, 6]"
  by (simp add: numeral_eq_Suc) presburger

lemma upto_seven: "n \<le> 7 \<Longrightarrow> int n \<in> set [0, 1, 2, 3, 4, 5, 6, 7]"
  by (simp add: numeral_eq_Suc) presburger

lemma score_completeness_range:
  "\<exists>k. score_completeness T = Inr k \<and> between 0 k 100"
proof -
  have "count_in sections (lower T) \<le> 6"
    using count_in_le [of sections "lower T"] by (simp add: sections_def)
  then have "int (count_in sections (lower T)) \<in> set [0, 1, 2, 3, 4, 5, 6]"
    by (rule upto_six)
  with sixths_in_range
  have "between 0 (fmul (double_of_rat (of_int (int (count_in sections (lower T))) / of_int 6)) (Fin 100)) 100"
    unfolding list_all_iff by blast
  moreover have "int (length sections) = 6"
    by (simp add: sections_def)
  ultimately show ?thesis
    by (simp add: score_completeness_def Let_def py_truediv_Inr)
qed

lemma analyze_proposal_strength_range:
  "\<exists>k. analyze_proposal_strength T = Inr k \<and> between 0 k 100"
proof -
  have len: "length (factors T) = 7"
    by (simp add: factors_def)
  have "length (filter id (factors T)) \<le> 7"
    using length_filter_le [of id "factors T"] len by simp
  then have "int (length (filter id (factors T))) \<in> set [0, 1, 2, 3, 4, 5, 6, 7]"
    by (rule upto_seven)
  with sevenths_in_range
  have "between 0 (fmul (double_of_rat (of_int (int (length (filter id (factors T)))) / of_int 7)) (Fin 100)) 100"
    unfolding list_all_iff by blast
  then show ?thesis
    by (simp add: analyze_proposal_strength_def Let_def py_truediv_Inr len)
qed

lemma calculate_quality_score_range:
  "0 \<le> calculate_quality_score T E \<and> calculate_quality_score T E \<le> 100"
  by (simp add: calculate_quality_score_def)

lemma score_grammar_range: "0 \<le> score_grammar T \<and> score_grammar T \<le> 100"
  by (simp add: score_grammar_def Let_def)

lemma score_professionalism_range: "0 \<le> score_professionalism T \<and> score_professionalism T \<le> 100"
  by (simp add: score_professionalism_def Let_def)

lemma score_value_proposition_range: "0 \<le> score_value_proposition T \<and> score_value_proposition T \<le> 100"
  by (simp add: score_value_proposition_def Let_def)

lemma score_credibility_range: "0 \<le> score_credibility T \<and> score_credibility T \<le> 100"
  by (simp add: score_credibility_def Let_def)

lemma score_urgency_range: "0 \<le> score_urgency T \<and> score_urgency T \<le> 100"
  by (simp add: score_urgency_def Let_def)

lemma score_roi_clarity_range: "0 \<le> score_roi_clarity T \<and> score_roi_clarity T \<le> 100"
  by (simp add: score_roi_clarity_def)

lemma quality_assurance_review_Success:
  "\<exists>c k. score_clarity T = Inr c \<and> score_completeness T = Inr k \<and>
     quality_assurance_review now T =
       Success \<lparr>overall_score = calculate_quality_score T (detect_errors T),
                document_type = classify_document T,
                reviewer = agent_name,
                errors_found = detect_errors T,
                improvement_recommendations = generate_recommendations T (detect_errors T),
                quality_dimensions =
                  \<lparr>grammar = score_grammar T, clarity = c,
                   professionalism = score_professionalism T, completeness = k\<rparr>,
                timestamp = isoformat now\<rparr>"
proof -
  obtain c where c: "score_clarity T = Inr c"
    using score_clarity_cases [of T] by blast
  obtain k where k: "score_completeness T = Inr k"
    using score_completeness_range [of T] by blast
  show ?thesis
    by (simp add: quality_assurance_review_def quality_assurance_review_body_def try_except_def Let_def c k)
qed

lemma strategic_analysis_Success:
  "\<exists>k. analyze_proposal_strength T = Inr k \<and>
     strategic_analysis T c =
       Success \<lparr>proposal_readiness_score = k,
                proposal_strength_assessment =
                  \<lparr>value_proposition = score_value_proposition T,
                   credibility = score_credibility T,
                   urgency = score_urgency T,
                   roi_clarity = score_roi_clarity T\<rparr>,
                competitive_positioning = analyze_competitive_position T (or_empty c),
                client_psychology_insights = analyze_client_psychology T (or_empty c),
                strategic_recommendations = generate_strategic_recommendations T (or_empty c),
                optimization_opportunities = identify_optimization_opportunities T\<rparr>"
proof -
  obtain k where k: "analyze_proposal_strength T = Inr k"
    using analyze_proposal_strength_range [of T] by blast
  show ?thesis
    by (simp add: strategic_analysis_def strategic_analysis_body_def try_except_def Let_def k)
qed

lemma py_in_iff: "py_in k s \<longleftrightarrow> (\<exists>a b. s = a @ k @ b)"
proof (induction s)
  case Nil
  then show ?case by auto
next
  case (Cons c s)
  show ?case
  proof
    assume "py_in k (c # s)"
    then consider "prefix k (c # s)" | "py_in k s" by auto
    then show "\<exists>a b. c # s = a @ k @ b"
    proof cases
      case 1
      then obtain b where "c # s = k @ b" by (auto simp: prefix_def)
      then have "c # s = [] @ k @ b" by simp
      then show ?thesis by blast
    next
      case 2
      with Cons obtain a b where "s = a @ k @ b" by blast
      then have "c # s = (c # a) @ k @ b" by simp
      then show ?thesis by blast
    qed
  next
    assume "\<exists>a b. c # s = a @ k @ b"
    then obtain a b where ab: "c # s = a @ k @ b" by blast
    show "py_in k (c # s)"
    proof (cases a)
      case Nil
      with ab have "prefix k (c # s)" by (simp add: prefix_def)
      then show ?thesis by simp
    next
      case (Cons x a')
      with ab have "s = a' @ k @ b" by simp
      with Cons.IH have "py_in k s" by blast
      then show ?thesis by simp
    qed
  qed
qed

lemma py_in_lower: "py_in k s \<Longrightarrow> py_in (lower k) (lower s)"
  unfolding py_in_iff lower_def by (metis map_append)

lemma any_in_append: "any_in (xs @ ys) s \<longleftrightarrow> any_in xs s \<or> any_in ys s"
  by (auto simp: any_in_def list_ex_iff)

lemma count_in_none: "\<not> any_in ws s \<Longrightarrow> count_in ws s = 0"
  by (auto simp: any_in_def count_in_def list_ex_iff filter_empty_conv)

lemma context_is_ignored:
  "analyze_competitive_position T x = analyze_competitive_position T y"
  "analyze_client_psychology T x = analyze_client_psychology T y"
  "generate_strategic_recommendations T x = generate_strategic_recommendations T y"
  by (simp_all add: analyze_competitive_position_def analyze_client_psychology_def
      generate_strategic_recommendations_def)

section \<open>Score ranges\<close>

text \<open>
  C1. For every text (and every context) both operations succeed, and in the record they
  return the overall score, the four quality scores, the proposal readiness score and the
  four strength scores all lie between 0 and 100.
\<close>

theorem scores_within_bounds:
  "(\<exists>r. quality_assurance_review now T = Success r \<and>
        0 \<le> overall_score r \<and> overall_score r \<le> 100 \<and>
        0 \<le> grammar (quality_dimensions r) \<and> grammar (quality_dimensions r) \<le> 100 \<and>
        0 \<le> clarity (quality_dimensions r) \<and> clarity (quality_dimensions r) \<le> 100 \<and>
        0 \<le> professionalism (quality_dimensions r) \<and> professionalism (quality_dimensions r) \<le> 100 \<and>
        between 0 (completeness (quality_dimensions r)) 100) \<and>
   (\<exists>s. strategic_analysis T c = Success s \<and>
        between 0 (proposal_readiness_score s) 100 \<and>
        0 \<le> value_proposition (proposal_strength_assessment s) \<and>
        value_proposition (proposal_strength_assessment s) \<le> 100 \<and>
        0 \<le> credibility (proposal_strength_assessment s) \<and>
        credibility (proposal_strength_assessment s) \<le> 100 \<and>
        0 \<le> urgency (proposal_strength_assessment s) \<and>
        urgency (proposal_strength_assessment s) \<le> 100 \<and>
        0 \<le> roi_clarity (proposal_strength_assessment s) \<and>
        roi_clarity (proposal_strength_assessment s) \<le> 100)"
proof
  obtain cl co where cl: "score_clarity T = Inr cl" and co: "score_completeness T = Inr co"
    and q: "quality_assurance_review now T =
       Success \<lparr>overall_score = calculate_quality_score T (detect_errors T),
                document_type = classify_document T,
                reviewer = agent_name,
                errors_found = detect_errors T,
                improvement_recommendations = generate_recommendations T (detect_errors T),
                quality_dimensions =
                  \<lparr>grammar = score_grammar T, clarity = cl,
                   professionalism = score_professionalism T, completeness = co\<rparr>,
                timestamp = isoformat now\<rparr>"
    using quality_assurance_review_Success [of T now] by blast
  have "0 \<le> cl \<and> cl \<le> 100"
    using score_clarity_cases [of T] cl by auto
  moreover have "between 0 co 100"
    using score_completeness_range [of T] co by auto
  ultimately show "\<exists>r. quality_assurance_review now T = Success r \<and>
        0 \<le> overall_score r \<and> overall_score r \<le> 100 \<and>
        0 \<le> grammar (quality_dimensions r) \<and> grammar (quality_dimensions r) \<le> 100 \<and>
        0 \<le> clarity (quality_dimensions r) \<and> clarity (quality_dimensions r) \<le> 100 \<and>
        0 \<le> professionalism (quality_dimensions r) \<and> professionalism (quality_dimensions r) \<le> 100 \<and>
        between 0 (completeness (quality_dimensions r)) 100"
    using calculate_quality_score_range [of T "detect_errors T"] score_grammar_range [of T]
      score_professionalism_range [of T]
    by (simp add: q)
next
  obtain k where k: "analyze_proposal_strength T = Inr k"
    and s: "strategic_analysis T c =
       Success \<lparr>proposal_readiness_score = k,
                proposal_strength_assessment =
                  \<lparr>value_proposition = score_value_proposition T,
                   credibility = score_credibility T,
                   urgency = score_urgency T,
                   roi_clarity = score_roi_clarity T\<rparr>,
                competitive_positioning = analyze_competitive_position T (or_empty c),
                client_psychology_insights = analyze_client_psychology T (or_empty c),
                strategic_recommendations = generate_strategic_recommendations T (or_empty c),
                optimization_opportunities = identify_optimization_opportunities T\<rparr>"
    using strategic_analysis_Success [of T c] by blast
  have "between 0 k 100"
    using analyze_proposal_strength_range [of T] k by auto
  then show "\<exists>s. strategic_analysis T c = Success s \<and>
        between 0 (proposal_readiness_score s) 100 \<and>
        0 \<le> value_proposition (proposal_strength_assessment s) \<and>
        value_proposition (proposal_strength_assessment s) \<le> 100 \<and>
        0 \<le> credibility (proposal_strength_assessment s) \<and>
        credibility (proposal_strength_assessment s) \<le> 100 \<and>
        0 \<le> urgency (proposal_strength_assessment s) \<and>
        urgency (proposal_strength_assessment s) \<le> 100 \<and>
        0 \<le> roi_clarity (proposal_strength_assessment s) \<and>
        roi_clarity (proposal_strength_assessment s) \<le> 100"
    using score_value_proposition_range [of T] score_credibility_range [of T]
      score_urgency_range [of T] score_roi_clarity_range [of T]
    by (simp add: s)
qed

section \<open>The operation boundary\<close>

lemma quality_assurance_review_any_Str:
  "quality_assurance_review_any now (Str T) = quality_assurance_review now T"
  by (simp add: quality_assurance_review_any_def quality_assurance_review_def split_receiver_def)

lemma strategic_analysis_any_Str:
  "strategic_analysis_any (Str T) c = strategic_analysis T c"
  by (simp add: strategic_analysis_any_def strategic_analysis_def search_subject_def)

lemma quality_assurance_review_any_Failure:
  "quality_assurance_review_any now NoneVal =
     Failure (QUOTE @ ''NoneType'' @ QUOTE @ '' object has no attribute '' @ QUOTE @ ''split'' @ QUOTE)"
  "quality_assurance_review_any now (IntVal i) =
     Failure (QUOTE @ ''int'' @ QUOTE @ '' object has no attribute '' @ QUOTE @ ''split'' @ QUOTE)"
  "quality_assurance_review_any now (BytesVal b) =
     Failure (''a bytes-like object is required, not '' @ QUOTE @ ''str'' @ QUOTE)"
  by (simp_all add: quality_assurance_review_any_def split_receiver_def try_except_def
        exn_str_def type_name_def)

lemma strategic_analysis_any_Failure:
  "strategic_analysis_any NoneVal c =
     Failure (''expected string or bytes-like object, got '' @ QUOTE @ ''NoneType'' @ QUOTE)"
  "strategic_analysis_any (IntVal i) c =
     Failure (''expected string or bytes-like object, got '' @ QUOTE @ ''int'' @ QUOTE)"
  "strategic_analysis_any (BytesVal b) c =
     Failure ''cannot use a string pattern on a bytes-like object''"
  by (simp_all add: strategic_analysis_any_def search_subject_def try_except_def
        exn_str_def type_name_def)

text \<open>
  C2. Called with a text, each public operation returns the success record with every
  field filled in by its scoring function: no statement of the block raises.  Called with
  \<open>None\<close>, an integer or a byte string, the first use of the argument raises
  (\<open>content.split\<close> in the review, \<open>re.search\<close> in the analysis); the handler at the
  boundary catches the exception and the operation returns the failure record, which
  carries the text of the exception and nothing else.  So every call returns one of the
  two records, and the success record exactly for a text.
\<close>

theorem operations_always_return_a_record:
  "(\<exists>cl co. score_clarity T = Inr cl \<and> score_completeness T = Inr co \<and>
      quality_assurance_review_any now (Str T) =
        Success \<lparr>overall_score = calculate_quality_score T (detect_errors T),
                 document_type = classify_document T,
                 reviewer = agent_name,
                 errors_found = detect_errors T,
                 improvement_recommendations = generate_recommendations T (detect_errors T),
                 quality_dimensions =
                   \<lparr>grammar = score_grammar T, clarity = cl,
                    professionalism = score_professionalism T, completeness = co\<rparr>,
                 timestamp = isoformat now\<rparr>) \<and>
   (\<exists>k. analyze_proposal_strength T = Inr k \<and>
      strategic_analysis_any (Str T) c =
        Success \<lparr>proposal_readiness_score = k,
                 proposal_strength_assessment =
                   \<lparr>value_proposition = score_value_proposition T,
                    credibility = score_credibility T,
                    urgency = score_urgency T,
                    roi_clarity = score_roi_clarity T\<rparr>,
                 competitive_positioning = analyze_competitive_position T (or_empty c),
                 client_psychology_insights = analyze_client_psychology T (or_empty c),
                 strategic_recommendations = generate_strategic_recommendations T (or_empty c),
                 optimization_opportunities = identify_optimization_opportunities T\<rparr>) \<and>
   quality_assurance_review_any now NoneVal =
     Failure (QUOTE @ ''NoneType'' @ QUOTE @ '' object has no attribute '' @ QUOTE @ ''split'' @ QUOTE) \<and>
   quality_assurance_review_any now (IntVal i) =
     Failure (QUOTE @ ''int'' @ QUOTE @ '' object has no attribute '' @ QUOTE @ ''split'' @ QUOTE) \<and>
   quality_assurance_review_any now (BytesVal b) =
     Failure (''a bytes-like object is required, not '' @ QUOTE @ ''str'' @ QUOTE) \<and>
   strategic_analysis_any NoneVal c =
     Failure (''expected string or bytes-like object, got '' @ QUOTE @ ''NoneType'' @ QUOTE) \<and>
   strategic_analysis_any (IntVal i) c =
     Failure (''expected string or bytes-like object, got '' @ QUOTE @ ''int'' @ QUOTE) \<and>
   strategic_analysis_any (BytesVal b) c =
     Failure ''cannot use a string pattern on a bytes-like object'' \<and>
   success (quality_assurance_review_any now v) = (\<exists>content. v = Str content) \<and>
   success (strategic_analysis_any v c) = (\<exists>content. v = Str content)"
proof -
  note q = quality_assurance_review_Success [of T now]
  note t = strategic_analysis_Success [of T c]
  note f = quality_assurance_review_any_Failure
  note g = strategic_analysis_any_Failure
  have sq: "success (quality_assurance_review_any now v) = (\<exists>content. v = Str content)"
  proof (cases v)
    case (Str x)
    obtain r where "quality_assurance_review now x = Success r"
      using quality_assurance_review_Success [of x now] by blast
    then show ?thesis
      by (simp add: Str quality_assurance_review_any_Str success_def)
  qed (simp_all add: f success_def)
  have st: "success (strategic_analysis_any v c) = (\<exists>content. v = Str content)"
  proof (cases v)
    case (Str x)
    obtain r where "strategic_analysis x c = Success r"
      using strategic_analysis_Success [of x c] by blast
    then show ?thesis
      by (simp add: Str strategic_analysis_any_Str success_def)
  qed (simp_all add: g success_def)
  note a = q [folded quality_assurance_review_any_Str]
  note b = t [folded strategic_analysis_any_Str]
  show ?thesis
    by (intro conjI) (rule a, rule b, rule f(1), rule f(2), rule f(3), rule g(1), rule g(2),
      rule g(3), rule sq, rule st)
qed

section \<open>Determinism\<close>

text \<open>
  The quality review reads the clock: with the same text, two calls one second apart
  return different records.
\<close>

theorem review_depends_on_the_clock:
  "quality_assurance_review
     \<lparr>dt_year = 2024, dt_month = 5, dt_day = 17, dt_hour = 9, dt_minute = 30, dt_second = 0,
      dt_microsecond = 0\<rparr> ''Quarterly report'' \<noteq>
   quality_assurance_review
     \<lparr>dt_year = 2024, dt_month = 5, dt_day = 17, dt_hour = 9, dt_minute = 30, dt_second = 1,
      dt_microsecond = 0\<rparr> ''Quarterly report''"
proof
  let ?a = "\<lparr>dt_year = 2024, dt_month = 5, dt_day = 17, dt_hour = 9, dt_minute = 30, dt_second = 0,
      dt_microsecond = 0\<rparr>"
  let ?b = "\<lparr>dt_year = 2024, dt_month = 5, dt_day = 17, dt_hour = 9, dt_minute = 30, dt_second = 1,
      dt_microsecond = 0\<rparr>"
  assume eq: "quality_assurance_review ?a ''Quarterly report'' =
    quality_assurance_review ?b ''Quarterly report''"
  have "isoformat ?a \<noteq> isoformat ?b"
    by code_simp
  moreover have "isoformat ?a = isoformat ?b"
    using quality_assurance_review_Success [of "''Quarterly report''" ?a]
      quality_assurance_review_Success [of "''Quarterly report''" ?b] eq
    by auto
  ultimately show False by simp
qed

text \<open>
  C4, amended. Two quality reviews of the same text agree in every field but the
  timestamp, which is the clock reading of the call; the strategic analysis is fixed by
  the text alone, whatever the context.
\<close>

theorem results_agree_up_to_timestamp:
  "(\<exists>r1 r2. quality_assurance_review now1 T = Success r1 \<and>
       quality_assurance_review now2 T = Success r2 \<and>
       r2 = r1\<lparr>timestamp := isoformat now2\<rparr>) \<and>
   strategic_analysis T c1 = strategic_analysis T c2"
proof
  show "\<exists>r1 r2. quality_assurance_review now1 T = Success r1 \<and>
       quality_assurance_review now2 T = Success r2 \<and>
       r2 = r1\<lparr>timestamp := isoformat now2\<rparr>"
    using quality_assurance_review_Success [of T now1] quality_assurance_review_Success [of T now2]
    by auto
next
  show "strategic_analysis T c1 = strategic_analysis T c2"
    using strategic_analysis_Success [of T c1] strategic_analysis_Success [of T c2]
      context_is_ignored [of T "or_empty c1" "or_empty c2"]
    by auto
qed

section \<open>Persuasion motivators\<close>

text \<open>
  A trigger word counts once however often it occurs: three times \<open>urgent\<close> is an urgency
  sum of 10, and no motivator.
\<close>

theorem repeated_urgent_is_one_hit:
  "primary_motivators (analyze_client_psychology ''urgent urgent urgent'' Map.empty) = []"
  by code_simp

text \<open>
  C6, amended. \<open>urgency\<close> is among the primary motivators exactly when at least three
  different urgency trigger words occur in the lower-cased text; a text with no trigger
  word at all has no motivator and the triggers \<open>clarity\<close> and \<open>trust\<close>.
\<close>

theorem motivators_count_distinct_words:
  "(''urgency'' \<in> set (primary_motivators (analyze_client_psychology T c)) \<longleftrightarrow>
      3 \<le> count_in urgency_words (lower T)) \<and>
   (\<not> any_in (urgency_words @ fear_words @ gain_words) (lower T) \<longrightarrow>
      primary_motivators (analyze_client_psychology T c) = [] \<and>
      psychological_triggers (analyze_client_psychology T c) = [''clarity'', ''trust''])"
  by (auto simp: analyze_client_psychology_def Let_def any_in_append count_in_none)

theorem motivators_count_distinct_words_witness:
  "''urgency'' \<in> set (primary_motivators
      (analyze_client_psychology ''urgent, critical, immediate'' Map.empty)) \<and>
   primary_motivators (analyze_client_psychology ''hello'' Map.empty) = [] \<and>
   psychological_triggers (analyze_client_psychology ''hello'' Map.empty) = [''clarity'', ''trust'']"
proof -
  have a: "3 \<le> count_in urgency_words (lower ''urgent, critical, immediate'')"
    by code_simp
  have b: "\<not> any_in (urgency_words @ fear_words @ gain_words) (lower ''hello'')"
    by code_simp
  show ?thesis
    using motivators_count_distinct_words [of "''urgent, critical, immediate''" Map.empty]
      motivators_count_distinct_words [of "''hello''" Map.empty] a b
    by blast
qed

section \<open>Document classification\<close>

text \<open>
  C8. The categories are tried in the order proposal, report, communication, and the first
  one with a keyword in the lower-cased text wins: a text containing \<open>investment\<close> and
  \<open>proposal\<close> is a business proposal, and a text with none of the keywords is a general
  business document.
\<close>

theorem classification_by_priority:
  "(py_in ''investment'' T \<and> py_in ''proposal'' T \<longrightarrow>
      classify_document T = ''business_proposal'') \<and>
   (any_in [''proposal'', ''executive summary'', ''investment''] (lower T) \<longrightarrow>
      classify_document T = ''business_proposal'') \<and>
   (\<not> any_in [''proposal'', ''executive summary'', ''investment''] (lower T) \<and>
    any_in [''report'', ''analysis'', ''findings''] (lower T) \<longrightarrow>
      classify_document T = ''business_report'') \<and>
   (\<not> any_in [''proposal'', ''executive summary'', ''investment''] (lower T) \<and>
    \<not> any_in [''report'', ''analysis'', ''findings''] (lower T) \<and>
    any_in [''email'', ''message'', ''correspondence''] (lower T) \<longrightarrow>
      classify_document T = ''business_communication'') \<and>
   (\<not> any_in ([''proposal'', ''executive summary'', ''investment''] @
               [''report'', ''analysis'', ''findings''] @
               [''email'', ''message'', ''correspondence'']) (lower T) \<longrightarrow>
      classify_document T = ''general_business_document'')"
proof -
  have "lower ''investment'' = ''investment''"
    by code_simp
  then have "py_in ''investment'' T \<Longrightarrow> py_in ''investment'' (lower T)"
    using py_in_lower [of "''investment''" T] by simp
  then have "py_in ''investment'' T \<Longrightarrow>
      any_in [''proposal'', ''executive summary'', ''investment''] (lower T)"
    by (simp add: any_in_def)
  then show ?thesis
    by (simp add: classify_document_def Let_def any_in_def)
qed

theorem classification_by_priority_witness:
  "classify_document ''Our investment proposal and report'' = ''business_proposal'' \<and>
   classify_document ''Findings sent by email'' = ''business_report'' \<and>
   classify_document ''See my MESSAGE'' = ''business_communication'' \<and>
   classify_document ''Hello world'' = ''general_business_document''"
proof -
  have a: "py_in ''investment'' ''Our investment proposal and report'' \<and>
      py_in ''proposal'' ''Our investment proposal and report''"
    by code_simp
  have b: "\<not> any_in [''proposal'', ''executive summary'', ''investment'']
           (lower ''Findings sent by email'') \<and>
       any_in [''report'', ''analysis'', ''findings''] (lower ''Findings sent by email'')"
    by code_simp
  have c: "\<not> any_in [''proposal'', ''executive summary'', ''investment''] (lower ''See my MESSAGE'') \<and>
       \<not> any_in [''report'', ''analysis'', ''findings''] (lower ''See my MESSAGE'') \<and>
       any_in [''email'', ''message'', ''correspondence''] (lower ''See my MESSAGE'')"
    by code_simp
  have d: "\<not> any_in ([''proposal'', ''executive summary'', ''investment''] @
               [''report'', ''analysis'', ''findings''] @
               [''email'', ''message'', ''correspondence'']) (lower ''Hello world'')"
    by code_simp
  have w1: "classify_document ''Our investment proposal and report'' = ''business_proposal''"
    by (rule classification_by_priority [THEN conjunct1, THEN mp, OF a])
  have w2: "classify_document ''Findings sent by email'' = ''business_report''"
    by (rule classification_by_priority
        [THEN conjunct2, THEN conjunct2, THEN conjunct1, THEN mp, OF b])
  have w3: "classify_document ''See my MESSAGE'' = ''business_communication''"
    by (rule classification_by_priority
        [THEN conjunct2, THEN conjunct2, THEN conjunct2, THEN conjunct1, THEN mp, OF c])
  have w4: "classify_document ''Hello world'' = ''general_business_document''"
    by (rule classification_by_priority
        [THEN conjunct2, THEN conjunct2, THEN conjunct2, THEN conjunct2, THEN mp, OF d])
  show ?thesis
    by (intro conjI) (rule w1, rule w2, rule w3, rule w4)
qed

section \<open>The loops of the detector\<close>

lemma check_spelling_eq:
  "check_spelling n l rules E =
     E\<lparr>spelling_errors := spelling_errors E @ spelling_records n l rules\<rparr>"
proof (induction rules arbitrary: E)
  case Nil
  then show ?case by (simp add: spelling_records_def)
next
  case (Cons x rules)
  obtain p r corr where x: "x = (p, r, corr)" by (cases x) auto
  show ?case
    by (simp add: x Cons spelling_records_def)
qed

lemma check_grammar_eq:
  "check_grammar n l rules E =
     E\<lparr>grammar_errors := grammar_errors E @ grammar_records n l rules\<rparr>"
proof (induction rules arbitrary: E)
  case Nil
  then show ?case by (simp add: grammar_records_def)
next
  case (Cons x rules)
  obtain p r corr where x: "x = (p, r, corr)" by (cases x) auto
  show ?case
    by (simp add: x Cons grammar_records_def)
qed

lemma check_calculations_eq:
  "check_calculations n ms E =
     E\<lparr>calculation_errors := calculation_errors E @ calculation_records n ms\<rparr>"
proof (induction ms arbitrary: E)
  case Nil
  then show ?case by (simp add: calculation_records_def)
next
  case (Cons m ms)
  show ?case
    by (simp add: Cons calculation_records_def split: option.split)
qed

lemma scan_lines_eq:
  "scan_lines n ls E =
     E\<lparr>spelling_errors := spelling_errors E @
          concat (map (\<lambda>(k, l). spelling_records k l spelling_patterns) (enumerate n ls)),
       grammar_errors := grammar_errors E @
          concat (map (\<lambda>(k, l). grammar_records k l grammar_patterns) (enumerate n ls)),
       calculation_errors := calculation_errors E @
          concat (map (\<lambda>(k, l). calculation_records k (re_findall calc_pattern l)) (enumerate n ls))\<rparr>"
proof (induction ls arbitrary: n E)
  case Nil
  then show ?case by simp
next
  case (Cons l ls)
  show ?case
    by (simp add: Cons check_spelling_eq check_grammar_eq check_calculations_eq)
qed

lemma detect_errors_eq:
  "detect_errors T =
     \<lparr>spelling_errors =
        concat (map (\<lambda>(k, l). spelling_records k l spelling_patterns) (enumerate 1 (split_on NL T))),
      grammar_errors =
        concat (map (\<lambda>(k, l). grammar_records k l grammar_patterns) (enumerate 1 (split_on NL T))),
      consistency_errors = [],
      calculation_errors =
        concat (map (\<lambda>(k, l). calculation_records k (re_findall calc_pattern l))
                  (enumerate 1 (split_on NL T))),
      logic_errors = []\<rparr>"
  by (simp add: detect_errors_def scan_lines_eq no_errors_def)

lemma filter_other_lines:
  assumes "\<And>k l d. d \<in> set (f (k, l)) \<Longrightarrow> d_line d = k" and "m < n"
  shows "filter (\<lambda>d. d_line d = m \<and> P d) (concat (map f (enumerate n ls))) = []"
  using assms(2)
proof (induction ls arbitrary: n)
  case Nil
  then show ?case by simp
next
  case (Cons l ls)
  have "filter (\<lambda>d. d_line d = m \<and> P d) (f (n, l)) = []"
    using assms(1) [of _ n l] Cons.prems by (auto simp: filter_empty_conv)
  moreover have "filter (\<lambda>d. d_line d = m \<and> P d) (concat (map f (enumerate (Suc n) ls))) = []"
    using Cons.IH [of "Suc n"] Cons.prems by simp
  ultimately show ?case by simp
qed

lemma filter_this_line:
  assumes "\<And>k l d. d \<in> set (f (k, l)) \<Longrightarrow> d_line d = k" and "i < length ls"
  shows "filter (\<lambda>d. d_line d = n + i \<and> P d) (concat (map f (enumerate n ls))) =
         filter P (f (n + i, ls ! i))"
  using assms(2)
proof (induction ls arbitrary: n i)
  case Nil
  then show ?case by simp
next
  case (Cons l ls)
  show ?case
  proof (cases i)
    case 0
    have "filter (\<lambda>d. d_line d = n \<and> P d) (f (n, l)) = filter P (f (n, l))"
      using assms(1) [of _ n l] by (auto intro: filter_cong)
    moreover have "filter (\<lambda>d. d_line d = n \<and> P d) (concat (map f (enumerate (Suc n) ls))) = []"
      using filter_other_lines [of f n "Suc n" P ls] assms(1) by simp
    ultimately show ?thesis using 0 by simp
  next
    case (Suc j)
    have "filter (\<lambda>d. d_line d = n + i \<and> P d) (f (n, l)) = []"
      using assms(1) [of _ n l] Suc by (auto simp: filter_empty_conv)
    moreover have "filter (\<lambda>d. d_line d = Suc n + j \<and> P d) (concat (map f (enumerate (Suc n) ls))) =
        filter P (f (Suc n + j, ls ! j))"
      using Cons.IH [of j "Suc n"] Cons.prems Suc by simp
    ultimately show ?thesis using Suc by simp
  qed
qed

lemma spelling_records_line: "d \<in> set (spelling_records k l rules) \<Longrightarrow> d_line d = k"
  by (auto simp: spelling_records_def)

lemma grammar_records_line: "d \<in> set (grammar_records k l rules) \<Longrightarrow> d_line d = k"
  by (auto simp: grammar_records_def)

lemma records_per_rule:
  assumes "distinct (map (\<lambda>x. disp (fst x)) rules)" and "(p, r, corr) \<in> set rules"
  shows "length (filter (\<lambda>d. d_text d = disp p)
           (map (\<lambda>(p, r, corr). \<lparr>d_line = n, d_text = disp p, d_suggestion = corr,
                                 d_original = strip l\<rparr>)
              (filter (\<lambda>(p, r, corr). re_search True r l) rules))) =
         (if re_search True r l then 1 else 0)"
  using assms
proof (induction rules)
  case Nil
  then show ?case by simp
next
  case (Cons x rules)
  obtain p' r' corr' where x: "x = (p', r', corr')" by (cases x) auto
  show ?case
  proof (cases "(p, r, corr) = x")
    case True
    have "\<And>y. y \<in> set rules \<Longrightarrow> disp (fst y) \<noteq> disp p"
      using Cons.prems(1) True by force
    then show ?thesis using True x
      by (auto simp: filter_map comp_def filter_empty_conv split: prod.splits)
  next
    case False
    then have mem: "(p, r, corr) \<in> set rules" using Cons.prems(2) by simp
    then have "disp p' \<noteq> disp p"
      using Cons.prems(1) x by force
    moreover have "distinct (map (\<lambda>x. disp (fst x)) rules)"
      using Cons.prems(1) by simp
    ultimately show ?thesis
      using Cons.IH mem x by (auto split: if_splits)
  qed
qed

lemma spelling_texts_distinct: "distinct (map (\<lambda>x. spelling_display (fst x)) spelling_patterns)"
  by code_simp

lemma grammar_texts_distinct: "distinct (map (\<lambda>x. grammar_display (fst x)) grammar_patterns)"
  by code_simp

section \<open>Records per line and pattern\<close>

text \<open>
  C10. For every line and every rule of the spelling table, and of the grammar table, the
  inventory holds exactly one record with that line number and the display text of the
  rule if the pattern is found in the line, and none otherwise: several occurrences in one
  line give one record, occurrences on different lines give one record each.
\<close>

theorem one_record_per_line_and_pattern:
  assumes "i < length (split_on NL T)"
  shows "((p, r, corr) \<in> set spelling_patterns \<longrightarrow>
            length (filter (\<lambda>d. d_line d = Suc i \<and> d_text d = spelling_display p)
                      (spelling_errors (detect_errors T))) =
            (if re_search True r (split_on NL T ! i) then 1 else 0)) \<and>
         ((p, r, corr) \<in> set grammar_patterns \<longrightarrow>
            length (filter (\<lambda>d. d_line d = Suc i \<and> d_text d = grammar_display p)
                      (grammar_errors (detect_errors T))) =
            (if re_search True r (split_on NL T ! i) then 1 else 0))"
proof (intro conjI impI)
  assume mem: "(p, r, corr) \<in> set spelling_patterns"
  have "filter (\<lambda>d. d_line d = 1 + i \<and> d_text d = spelling_display p)
          (concat (map (\<lambda>(k, l). spelling_records k l spelling_patterns)
             (enumerate 1 (split_on NL T)))) =
        filter (\<lambda>d. d_text d = spelling_display p)
          (spelling_records (1 + i) (split_on NL T ! i) spelling_patterns)"
    using filter_this_line [of "\<lambda>(k, l). spelling_records k l spelling_patterns" i
        "split_on NL T" 1 "\<lambda>d. d_text d = spelling_display p"] assms spelling_records_line
    by auto
  then show "length (filter (\<lambda>d. d_line d = Suc i \<and> d_text d = spelling_display p)
                      (spelling_errors (detect_errors T))) =
            (if re_search True r (split_on NL T ! i) then 1 else 0)"
    using records_per_rule [OF spelling_texts_distinct mem, of "1 + i" "split_on NL T ! i"]
    by (simp add: detect_errors_eq spelling_records_def)
next
  assume mem: "(p, r, corr) \<in> set grammar_patterns"
  have "filter (\<lambda>d. d_line d = 1 + i \<and> d_text d = grammar_display p)
          (concat (map (\<lambda>(k, l). grammar_records k l grammar_patterns)
             (enumerate 1 (split_on NL T)))) =
        filter (\<lambda>d. d_text d = grammar_display p)
          (grammar_records (1 + i) (split_on NL T ! i) grammar_patterns)"
    using filter_this_line [of "\<lambda>(k, l). grammar_records k l grammar_patterns" i
        "split_on NL T" 1 "\<lambda>d. d_text d = grammar_display p"] assms grammar_records_line
    by auto
  then show "length (filter (\<lambda>d. d_line d = Suc i \<and> d_text d = grammar_display p)
                      (grammar_errors (detect_errors T))) =
            (if re_search True r (split_on NL T ! i) then 1 else 0)"
    using records_per_rule [OF grammar_texts_distinct mem, of "1 + i" "split_on NL T ! i"]
    by (simp add: detect_errors_eq grammar_records_def)
qed

theorem one_record_per_line_and_pattern_witness:
  "length (filter (\<lambda>d. d_line d = Suc 0 \<and>
              d_text d = spelling_display (BSL @ ''b'' @ ''acheive'' @ BSL @ ''b''))
      (spelling_errors (detect_errors (''acheive, acheive'' @ [NL] @ ''acheive'')))) = 1 \<and>
   length (filter (\<lambda>d. d_line d = Suc 1 \<and>
              d_text d = spelling_display (BSL @ ''b'' @ ''acheive'' @ BSL @ ''b''))
      (spelling_errors (detect_errors (''acheive, acheive'' @ [NL] @ ''acheive'')))) = 1 \<and>
   spelling_display (BSL @ ''b'' @ ''acheive'' @ BSL @ ''b'') = ''acheive''"
proof -
  let ?T = "''acheive, acheive'' @ [NL] @ ''acheive''"
  let ?p = "BSL @ ''b'' @ ''acheive'' @ BSL @ ''b''"
  let ?r = "seqs [WordB, word_re ''acheive'', WordB]"
  have mem: "(?p, ?r, ''achieve'') \<in> set spelling_patterns"
    by (simp add: spelling_patterns_def word_rule_def)
  have lt0: "0 < length (split_on NL ?T)" and lt1: "1 < length (split_on NL ?T)"
    by code_simp+
  have m0: "re_search True ?r (split_on NL ?T ! 0) = True"
    and m1: "re_search True ?r (split_on NL ?T ! 1) = True"
    by code_simp+
  have disp: "spelling_display ?p = ''acheive''"
    by code_simp
  have c0: "length (filter (\<lambda>d. d_line d = Suc 0 \<and> d_text d = spelling_display ?p)
      (spelling_errors (detect_errors ?T))) = 1"
    using one_record_per_line_and_pattern [OF lt0, THEN conjunct1, THEN mp, OF mem]
    by (simp only: m0 if_True)
  have c1: "length (filter (\<lambda>d. d_line d = Suc 1 \<and> d_text d = spelling_display ?p)
      (spelling_errors (detect_errors ?T))) = 1"
    using one_record_per_line_and_pattern [OF lt1, THEN conjunct1, THEN mp, OF mem]
    by (simp only: m1 if_True)
  show ?thesis
    by (intro conjI) (rule c0, rule c1, rule disp)
qed

section \<open>Facts about the matcher\<close>

lemma search_from_at:
  "rmatch ic r \<lparr>m_prev = (if a = [] then p else Some (last a)), m_rest = s, m_caps = []\<rparr> \<noteq> [] \<Longrightarrow>
   search_from ic r p (a @ s)"
proof (induction a arbitrary: p)
  case Nil
  then show ?case by (cases s) auto
next
  case (Cons c a)
  from Cons.prems
  have "rmatch ic r \<lparr>m_prev = (if a = [] then Some c else Some (last a)), m_rest = s, m_caps = []\<rparr> \<noteq> []"
    by (simp split: if_splits)
  then have "search_from ic r (Some c) (a @ s)"
    by (rule Cons.IH)
  then show ?case by simp
qed

lemma re_search_at:
  "st \<in> set (rmatch ic r \<lparr>m_prev = (if a = [] then None else Some (last a)), m_rest = s, m_caps = []\<rparr>) \<Longrightarrow>
   re_search ic r (a @ s)"
  unfolding re_search_def by (rule search_from_at) auto

lemma search_from_none:
  "(\<And>st. set (m_rest st) \<subseteq> set s \<Longrightarrow> rmatch ic r st = []) \<Longrightarrow> \<not> search_from ic r p s"
proof (induction s arbitrary: p)
  case Nil
  then show ?case by simp
next
  case (Cons c s)
  have "rmatch ic r \<lparr>m_prev = p, m_rest = c # s, m_caps = []\<rparr> = []"
    by (rule Cons.prems) simp
  moreover have "\<not> search_from ic r (Some c) s"
  proof (rule Cons.IH)
    fix st :: mstate
    assume "set (m_rest st) \<subseteq> set s"
    then have "set (m_rest st) \<subseteq> set (c # s)" by auto
    then show "rmatch ic r st = []" by (rule Cons.prems)
  qed
  ultimately show ?case by simp
qed

lemma rmatch_Seq_mem:
  "st1 \<in> set (rmatch ic r1 st) \<Longrightarrow> st2 \<in> set (rmatch ic r2 st1) \<Longrightarrow>
   st2 \<in> set (rmatch ic (Seq r1 r2) st)"
  by auto

lemma lit_match_same: "lit_match ic x x"
  by (simp add: lit_match_def)

lemma rmatch_Lit_mem:
  "lit_match ic x c \<Longrightarrow>
   \<lparr>m_prev = Some c, m_rest = s, m_caps = cs\<rparr> \<in>
     set (rmatch ic (Lit x) \<lparr>m_prev = p, m_rest = c # s, m_caps = cs\<rparr>)"
  by (simp add: one_char_def)

lemma rmatch_word_mem:
  "list_all2 (lit_match ic) w w' \<Longrightarrow>
   \<lparr>m_prev = (if w' = [] then p else Some (last w')), m_rest = s, m_caps = cs\<rparr> \<in>
     set (rmatch ic (word_re w) \<lparr>m_prev = p, m_rest = w' @ s, m_caps = cs\<rparr>)"
proof (induction w w' arbitrary: p rule: list_all2_induct)
  case Nil
  then show ?case by (simp add: word_re_def)
next
  case (Cons x w c w')
  have step: "\<lparr>m_prev = Some c, m_rest = w' @ s, m_caps = cs\<rparr> \<in>
      set (rmatch ic (Lit x) \<lparr>m_prev = p, m_rest = c # w' @ s, m_caps = cs\<rparr>)"
    using Cons.hyps(1) by (rule rmatch_Lit_mem)
  have rest: "\<lparr>m_prev = (if w' = [] then Some c else Some (last w')), m_rest = s, m_caps = cs\<rparr> \<in>
      set (rmatch ic (word_re w) \<lparr>m_prev = Some c, m_rest = w' @ s, m_caps = cs\<rparr>)"
    by (rule Cons.IH)
  have "word_re (x # w) = Seq (Lit x) (word_re w)"
    by (simp add: word_re_def)
  moreover have "(if c # w' = [] then p else Some (last (c # w'))) =
      (if w' = [] then Some c else Some (last w'))"
    by simp
  ultimately show ?case
    using rmatch_Seq_mem [OF step rest] by simp
qed

lemma lower_word_match:
  assumes "lower w' = w" and "lower w = w"
  shows "list_all2 (lit_match True) w w'"
proof -
  have len: "length w' = length w"
    using assms(1) by (auto simp: lower_def)
  have "lower_char (w' ! i) = lower_char (w ! i)" if i: "i < length w" for i
  proof -
    have "map lower_char w' ! i = w ! i"
      using assms(1) by (simp add: lower_def)
    then have a: "lower_char (w' ! i) = w ! i"
      using i len by simp
    have "map lower_char w ! i = w ! i"
      using assms(2) by (simp add: lower_def)
    then have "lower_char (w ! i) = w ! i"
      using i by simp
    with a show ?thesis by simp
  qed
  then show ?thesis
    using len by (simp add: list_all2_conv_all_nth lit_match_def)
qed

lemma cp_range: "0 \<le> cp c \<and> cp c < 256"
proof -
  have g: "0 \<le> x mod 256 \<and> x mod 256 < 256" for x :: int
    by simp
  from g [of "of_char c"] show ?thesis
    unfolding cp_def of_char_mod_256 .
qed

lemma cp_char_of: "0 \<le> n \<Longrightarrow> n < 256 \<Longrightarrow> cp (char_of n) = n"
  by (simp add: cp_def)

lemma is_word_lower: "is_word (lower_char c) = is_word c"
proof (cases "(65 \<le> cp c \<and> cp c \<le> 90) \<or> (192 \<le> cp c \<and> cp c \<le> 222 \<and> cp c \<noteq> 215)")
  case True
  then have "cp (lower_char c) = cp c + 32"
    using cp_range [of c] by (auto simp: lower_char_def cp_char_of)
  with True show ?thesis
    unfolding is_word_def by presburger
next
  case False
  then have "lower_char c = c"
    unfolding lower_char_def by (rule if_not_P)
  then show ?thesis by simp
qed

lemma one_char_Cons:
  "one_char P \<lparr>m_prev = p, m_rest = c # s, m_caps = cs\<rparr> =
     (if P c then [\<lparr>m_prev = Some c, m_rest = s, m_caps = cs\<rparr>] else [])"
  by (simp add: one_char_def)

lemma star_iter_self: "st \<in> set (star_iter n f st)"
  by (cases n) simp_all

lemma star_iter_chars_mem:
  "list_all P m \<Longrightarrow> length (m @ s) \<le> n \<Longrightarrow>
   \<lparr>m_prev = (if m = [] then p else Some (last m)), m_rest = s, m_caps = cs\<rparr> \<in>
     set (star_iter n (one_char P) \<lparr>m_prev = p, m_rest = m @ s, m_caps = cs\<rparr>)"
proof (induction m arbitrary: n p)
  case Nil
  then show ?case by (simp add: star_iter_self)
next
  case (Cons c m)
  then obtain n' where n: "n = Suc n'" by (cases n) auto
  have ih: "\<lparr>m_prev = (if m = [] then Some c else Some (last m)), m_rest = s, m_caps = cs\<rparr> \<in>
     set (star_iter n' (one_char P) \<lparr>m_prev = Some c, m_rest = m @ s, m_caps = cs\<rparr>)"
    using Cons.IH [of n' "Some c"] Cons.prems n by simp
  have eq: "(if c # m = [] then p else Some (last (c # m))) =
      (if m = [] then Some c else Some (last m))"
    by simp
  have "P c" using Cons.prems by simp
  then show ?case
    unfolding eq n using ih by (simp add: one_char_Cons)
qed

lemma rmatch_Star_AnyChar_mem:
  assumes "NL \<notin> set m"
  shows "\<lparr>m_prev = (if m = [] then p else Some (last m)), m_rest = s, m_caps = cs\<rparr> \<in>
     set (rmatch ic (Star AnyChar) \<lparr>m_prev = p, m_rest = m @ s, m_caps = cs\<rparr>)"
proof -
  have "list_all (\<lambda>c. c \<noteq> CHR 0x0A) m"
    using assms by (auto simp: NL_def list_all_iff)
  then have "\<lparr>m_prev = (if m = [] then p else Some (last m)), m_rest = s, m_caps = cs\<rparr> \<in>
     set (star_iter (length (m @ s)) (one_char (\<lambda>c. c \<noteq> CHR 0x0A))
       \<lparr>m_prev = p, m_rest = m @ s, m_caps = cs\<rparr>)"
    by (rule star_iter_chars_mem) simp
  then show ?thesis by simp
qed

lemma rmatch_Plus_mem:
  assumes "st1 \<in> set (rmatch ic r st)"
  shows "st1 \<in> set (rmatch ic (Plus r) st)"
proof -
  have "st1 \<in> set (star_iter (length (m_rest st)) (rmatch ic r) st1)"
    by (rule star_iter_self)
  with assms show ?thesis by auto
qed

lemma dollar_figure_mem:
  assumes "is_digit c \<or> c = CHR '',''"
  shows "\<lparr>m_prev = Some c, m_rest = s, m_caps = cs\<rparr> \<in>
     set (rmatch ic dollar_figure \<lparr>m_prev = p, m_rest = CHR ''$'' # c # s, m_caps = cs\<rparr>)"
proof -
  have a: "\<lparr>m_prev = Some CHR ''$'', m_rest = c # s, m_caps = cs\<rparr> \<in>
      set (rmatch ic (Lit CHR ''$'') \<lparr>m_prev = p, m_rest = CHR ''$'' # c # s, m_caps = cs\<rparr>)"
    by (rule rmatch_Lit_mem) (rule lit_match_same)
  have "\<lparr>m_prev = Some c, m_rest = s, m_caps = cs\<rparr> \<in>
      set (rmatch ic (Class [CDigit, CChar CHR '','']) \<lparr>m_prev = Some CHR ''$'', m_rest = c # s, m_caps = cs\<rparr>)"
    using assms by (auto simp: one_char_Cons lit_match_same)
  then have b: "\<lparr>m_prev = Some c, m_rest = s, m_caps = cs\<rparr> \<in>
      set (rmatch ic (Plus (Class [CDigit, CChar CHR '',''])) \<lparr>m_prev = Some CHR ''$'', m_rest = c # s, m_caps = cs\<rparr>)"
    by (rule rmatch_Plus_mem)
  show ?thesis
    unfolding dollar_figure_def by (rule rmatch_Seq_mem [OF a b])
qed

lemma percent_mem:
  assumes "is_digit d"
  shows "\<lparr>m_prev = Some CHR ''%'', m_rest = s, m_caps = cs\<rparr> \<in>
     set (rmatch ic percent_re \<lparr>m_prev = p, m_rest = d # CHR ''%'' # s, m_caps = cs\<rparr>)"
proof -
  have "\<lparr>m_prev = Some d, m_rest = CHR ''%'' # s, m_caps = cs\<rparr> \<in>
      set (rmatch ic digit_re \<lparr>m_prev = p, m_rest = d # CHR ''%'' # s, m_caps = cs\<rparr>)"
    using assms by (simp add: digit_re_def one_char_Cons)
  then have a: "\<lparr>m_prev = Some d, m_rest = CHR ''%'' # s, m_caps = cs\<rparr> \<in>
      set (rmatch ic (Plus digit_re) \<lparr>m_prev = p, m_rest = d # CHR ''%'' # s, m_caps = cs\<rparr>)"
    by (rule rmatch_Plus_mem)
  have b: "\<lparr>m_prev = Some CHR ''%'', m_rest = s, m_caps = cs\<rparr> \<in>
      set (rmatch ic (Lit CHR ''%'') \<lparr>m_prev = Some d, m_rest = CHR ''%'' # s, m_caps = cs\<rparr>)"
    by (rule rmatch_Lit_mem) (rule lit_match_same)
  show ?thesis
    unfolding percent_re_def by (rule rmatch_Seq_mem [OF a b])
qed

lemma two_figures_found:
  assumes "is_digit c1 \<or> c1 = CHR '',''" and "is_digit c2 \<or> c2 = CHR '',''" and "NL \<notin> set m"
  shows "re_search False two_figures_re (a @ ''$'' @ [c1] @ m @ ''$'' @ [c2] @ b)"
proof -
  let ?p = "if a = [] then None else Some (last a)"
  let ?q = "if m = [] then Some c1 else Some (last m)"
  have s1: "\<lparr>m_prev = Some c1, m_rest = m @ ''$'' @ [c2] @ b, m_caps = []\<rparr> \<in>
      set (rmatch False dollar_figure
        \<lparr>m_prev = ?p, m_rest = CHR ''$'' # c1 # m @ ''$'' @ [c2] @ b, m_caps = []\<rparr>)"
    by (rule dollar_figure_mem [OF assms(1)])
  have s2: "\<lparr>m_prev = ?q, m_rest = ''$'' @ [c2] @ b, m_caps = []\<rparr> \<in>
      set (rmatch False (Star AnyChar)
        \<lparr>m_prev = Some c1, m_rest = m @ ''$'' @ [c2] @ b, m_caps = []\<rparr>)"
    by (rule rmatch_Star_AnyChar_mem [OF assms(3)])
  have s3: "\<lparr>m_prev = Some c2, m_rest = b, m_caps = []\<rparr> \<in>
      set (rmatch False dollar_figure
        \<lparr>m_prev = ?q, m_rest = CHR ''$'' # c2 # b, m_caps = []\<rparr>)"
    by (rule dollar_figure_mem [OF assms(2)])
  have s4: "\<lparr>m_prev = Some c2, m_rest = b, m_caps = []\<rparr> \<in>
      set (rmatch False (Seq dollar_figure Eps)
        \<lparr>m_prev = ?q, m_rest = ''$'' @ [c2] @ b, m_caps = []\<rparr>)"
    using s3 by simp
  have "\<lparr>m_prev = Some c2, m_rest = b, m_caps = []\<rparr> \<in>
      set (rmatch False (Seq dollar_figure (Seq (Star AnyChar) (Seq dollar_figure Eps)))
        \<lparr>m_prev = ?p, m_rest = CHR ''$'' # c1 # m @ ''$'' @ [c2] @ b, m_caps = []\<rparr>)"
    by (rule rmatch_Seq_mem [OF s1 rmatch_Seq_mem [OF s2 s4]])
  then have "\<lparr>m_prev = Some c2, m_rest = b, m_caps = []\<rparr> \<in>
      set (rmatch False two_figures_re
        \<lparr>m_prev = ?p, m_rest = ''$'' @ [c1] @ m @ ''$'' @ [c2] @ b, m_caps = []\<rparr>)"
    by (simp add: two_figures_re_def seqs_def)
  then show ?thesis
    by (rule re_search_at)
qed

lemma roi_percent_found_after:
  assumes "is_digit d" and "NL \<notin> set m" and "lower w = ''roi''"
  shows "re_search True roi_percent_re (a @ [d] @ ''%'' @ m @ w @ b)"
proof -
  let ?p = "if a = [] then None else Some (last a)"
  let ?q = "if m = [] then Some CHR ''%'' else Some (last m)"
  let ?e = "if w = [] then ?q else Some (last w)"
  have low: "lower ''roi'' = ''roi''" by code_simp
  have s1: "\<lparr>m_prev = Some CHR ''%'', m_rest = m @ w @ b, m_caps = []\<rparr> \<in>
      set (rmatch True percent_re \<lparr>m_prev = ?p, m_rest = d # CHR ''%'' # m @ w @ b, m_caps = []\<rparr>)"
    by (rule percent_mem [OF assms(1)])
  have s2: "\<lparr>m_prev = ?q, m_rest = w @ b, m_caps = []\<rparr> \<in>
      set (rmatch True (Star AnyChar) \<lparr>m_prev = Some CHR ''%'', m_rest = m @ w @ b, m_caps = []\<rparr>)"
    by (rule rmatch_Star_AnyChar_mem [OF assms(2)])
  have s3: "\<lparr>m_prev = ?e, m_rest = b, m_caps = []\<rparr> \<in>
      set (rmatch True (word_re ''roi'') \<lparr>m_prev = ?q, m_rest = w @ b, m_caps = []\<rparr>)"
    by (rule rmatch_word_mem [OF lower_word_match [OF assms(3) low]])
  have s4: "\<lparr>m_prev = ?e, m_rest = b, m_caps = []\<rparr> \<in>
      set (rmatch True (Seq (word_re ''roi'') Eps) \<lparr>m_prev = ?q, m_rest = w @ b, m_caps = []\<rparr>)"
    using s3 by simp
  have "\<lparr>m_prev = ?e, m_rest = b, m_caps = []\<rparr> \<in>
      set (rmatch True (Seq percent_re (Seq (Star AnyChar) (Seq (word_re ''roi'') Eps)))
        \<lparr>m_prev = ?p, m_rest = d # CHR ''%'' # m @ w @ b, m_caps = []\<rparr>)"
    by (rule rmatch_Seq_mem [OF s1 rmatch_Seq_mem [OF s2 s4]])
  then have "\<lparr>m_prev = ?e, m_rest = b, m_caps = []\<rparr> \<in>
      set (rmatch True roi_percent_re
        \<lparr>m_prev = ?p, m_rest = [d] @ ''%'' @ m @ w @ b, m_caps = []\<rparr>)"
    by (simp add: roi_percent_re_def seqs_def)
  then show ?thesis
    by (rule re_search_at)
qed

lemma roi_percent_found_before:
  assumes "is_digit d" and "NL \<notin> set m" and "lower w = ''roi''"
  shows "re_search True roi_percent_re (a @ w @ m @ [d] @ ''%'' @ b)"
proof -
  let ?p = "if a = [] then None else Some (last a)"
  let ?q = "if w = [] then ?p else Some (last w)"
  let ?e = "if m = [] then ?q else Some (last m)"
  have low: "lower ''roi'' = ''roi''" by code_simp
  have s1: "\<lparr>m_prev = ?q, m_rest = m @ [d] @ ''%'' @ b, m_caps = []\<rparr> \<in>
      set (rmatch True (word_re ''roi'') \<lparr>m_prev = ?p, m_rest = w @ m @ [d] @ ''%'' @ b, m_caps = []\<rparr>)"
    by (rule rmatch_word_mem [OF lower_word_match [OF assms(3) low]])
  have s2: "\<lparr>m_prev = ?e, m_rest = [d] @ ''%'' @ b, m_caps = []\<rparr> \<in>
      set (rmatch True (Star AnyChar) \<lparr>m_prev = ?q, m_rest = m @ [d] @ ''%'' @ b, m_caps = []\<rparr>)"
    by (rule rmatch_Star_AnyChar_mem [OF assms(2)])
  have s3: "\<lparr>m_prev = Some CHR ''%'', m_rest = b, m_caps = []\<rparr> \<in>
      set (rmatch True percent_re \<lparr>m_prev = ?e, m_rest = d # CHR ''%'' # b, m_caps = []\<rparr>)"
    by (rule percent_mem [OF assms(1)])
  have s4: "\<lparr>m_prev = Some CHR ''%'', m_rest = b, m_caps = []\<rparr> \<in>
      set (rmatch True (Seq percent_re Eps) \<lparr>m_prev = ?e, m_rest = [d] @ ''%'' @ b, m_caps = []\<rparr>)"
    using s3 by simp
  have "\<lparr>m_prev = Some CHR ''%'', m_rest = b, m_caps = []\<rparr> \<in>
      set (rmatch True (Seq (word_re ''roi'') (Seq (Star AnyChar) (Seq percent_re Eps)))
        \<lparr>m_prev = ?p, m_rest = w @ m @ [d] @ ''%'' @ b, m_caps = []\<rparr>)"
    by (rule rmatch_Seq_mem [OF s1 rmatch_Seq_mem [OF s2 s4]])
  then have "\<lparr>m_prev = Some CHR ''%'', m_rest = b, m_caps = []\<rparr> \<in>
      set (rmatch True roi_percent_re
        \<lparr>m_prev = ?p, m_rest = w @ m @ [d] @ ''%'' @ b, m_caps = []\<rparr>)"
    by (simp add: roi_percent_re_def seqs_def)
  then show ?thesis
    by (rule re_search_at)
qed


lemma at_boundary_start:
  "\<not> word_opt p \<Longrightarrow> is_word c \<Longrightarrow> at_boundary \<lparr>m_prev = p, m_rest = c # s, m_caps = cs\<rparr>"
  by (simp add: at_boundary_def word_opt_def)

lemma at_boundary_end:
  "is_word c \<Longrightarrow> b = [] \<or> \<not> is_word (hd b) \<Longrightarrow>
   at_boundary \<lparr>m_prev = Some c, m_rest = b, m_caps = cs\<rparr>"
  by (cases b) (auto simp: at_boundary_def word_opt_def)

lemma whole_word_found:
  assumes low: "lower w' = w" "lower w = w"
    and w: "w \<noteq> []" "is_word (hd w)" "is_word (last w)"
    and left: "a = [] \<or> \<not> is_word (last a)"
    and right: "b = [] \<or> \<not> is_word (hd b)"
  shows "re_search True (seqs [WordB, word_re w, WordB]) (a @ w' @ b)"
proof -
  let ?p = "if a = [] then None else Some (last a)"
  have ne: "w' \<noteq> []"
    using low(1) w(1) by (auto simp: lower_def)
  then obtain c u where cu: "w' = c # u" by (cases w') auto
  have "lower_char (hd w') = hd w"
    using low(1) ne by (auto simp: lower_def hd_map)
  then have first: "is_word c"
    using w(2) is_word_lower [of "hd w'"] cu by simp
  have "lower_char (last w') = last w"
    using low(1) ne by (auto simp: lower_def last_map)
  then have final: "is_word (last w')"
    using w(3) is_word_lower [of "last w'"] by simp
  have "\<not> word_opt ?p"
    using left by (auto simp: word_opt_def)
  then have "at_boundary \<lparr>m_prev = ?p, m_rest = c # u @ b, m_caps = []\<rparr>"
    using first by (rule at_boundary_start)
  then have s1: "\<lparr>m_prev = ?p, m_rest = w' @ b, m_caps = []\<rparr> \<in>
      set (rmatch True WordB \<lparr>m_prev = ?p, m_rest = w' @ b, m_caps = []\<rparr>)"
    using cu by simp
  have s2: "\<lparr>m_prev = (if w' = [] then ?p else Some (last w')), m_rest = b, m_caps = []\<rparr> \<in>
      set (rmatch True (word_re w) \<lparr>m_prev = ?p, m_rest = w' @ b, m_caps = []\<rparr>)"
    by (rule rmatch_word_mem [OF lower_word_match [OF low]])
  have "at_boundary \<lparr>m_prev = Some (last w'), m_rest = b, m_caps = []\<rparr>"
    using final right by (rule at_boundary_end)
  then have s3: "\<lparr>m_prev = Some (last w'), m_rest = b, m_caps = []\<rparr> \<in>
      set (rmatch True (Seq WordB Eps) \<lparr>m_prev = Some (last w'), m_rest = b, m_caps = []\<rparr>)"
    by simp
  have s2': "\<lparr>m_prev = Some (last w'), m_rest = b, m_caps = []\<rparr> \<in>
      set (rmatch True (word_re w) \<lparr>m_prev = ?p, m_rest = w' @ b, m_caps = []\<rparr>)"
    using s2 ne by simp
  have "\<lparr>m_prev = Some (last w'), m_rest = b, m_caps = []\<rparr> \<in>
      set (rmatch True (Seq WordB (Seq (word_re w) (Seq WordB Eps)))
        \<lparr>m_prev = ?p, m_rest = w' @ b, m_caps = []\<rparr>)"
    by (rule rmatch_Seq_mem [OF s1 rmatch_Seq_mem [OF s2' s3]])
  then have "\<lparr>m_prev = Some (last w'), m_rest = b, m_caps = []\<rparr> \<in>
      set (rmatch True (seqs [WordB, word_re w, WordB])
        \<lparr>m_prev = ?p, m_rest = w' @ b, m_caps = []\<rparr>)"
    by (simp add: seqs_def)
  then show ?thesis
    by (rule re_search_at)
qed

lemma one_char_none: "\<forall>c \<in> set (m_rest st). \<not> P c \<Longrightarrow> one_char P st = []"
  by (cases "m_rest st") (auto simp: one_char_def)

lemma star_iter_rest_subset:
  assumes "\<And>st st'. st' \<in> set (f st) \<Longrightarrow> set (m_rest st') \<subseteq> set (m_rest st)"
  shows "st' \<in> set (star_iter n f st) \<Longrightarrow> set (m_rest st') \<subseteq> set (m_rest st)"
proof (induction n arbitrary: st)
  case 0
  then show ?case by simp
next
  case (Suc n)
  from Suc.prems consider "st' = st"
    | st1 where "st1 \<in> set (f st)" "st' \<in> set (star_iter n f st1)"
    by (auto split: if_splits)
  then show ?case
  proof cases
    case 1
    then show ?thesis by simp
  next
    case 2
    then have "set (m_rest st') \<subseteq> set (m_rest st1)" using Suc.IH by blast
    moreover have "set (m_rest st1) \<subseteq> set (m_rest st)" using 2(1) assms by blast
    ultimately show ?thesis by blast
  qed
qed

lemma times_iter_rest_subset:
  assumes "\<And>st st'. st' \<in> set (f st) \<Longrightarrow> set (m_rest st') \<subseteq> set (m_rest st)"
  shows "st' \<in> set (times_iter n f st) \<Longrightarrow> set (m_rest st') \<subseteq> set (m_rest st)"
proof (induction n arbitrary: st)
  case 0
  then show ?case by simp
next
  case (Suc n)
  then obtain st1 where 1: "st1 \<in> set (f st)" "st' \<in> set (times_iter n f st1)"
    by auto
  then have "set (m_rest st') \<subseteq> set (m_rest st1)" using Suc.IH by blast
  moreover have "set (m_rest st1) \<subseteq> set (m_rest st)" using 1(1) assms by blast
  ultimately show ?case by blast
qed

lemma one_char_rest_subset:
  "st' \<in> set (one_char P st) \<Longrightarrow> set (m_rest st') \<subseteq> set (m_rest st)"
  by (cases "m_rest st") (auto simp: one_char_def split: if_splits)

lemma rmatch_rest_subset:
  "st' \<in> set (rmatch ic r st) \<Longrightarrow> set (m_rest st') \<subseteq> set (m_rest st)"
proof (induction r arbitrary: st st')
  case Eps
  then show ?case by simp
next
  case (Lit x)
  then show ?case using one_char_rest_subset by simp
next
  case (Class items)
  then show ?case using one_char_rest_subset by simp
next
  case AnyChar
  then show ?case using one_char_rest_subset by simp
next
  case WordB
  then show ?case by (simp split: if_splits)
next
  case (Seq r1 r2)
  from Seq.prems obtain st1 where "st1 \<in> set (rmatch ic r1 st)" "st' \<in> set (rmatch ic r2 st1)"
    by auto
  then show ?case using Seq.IH by blast
next
  case (Alt r1 r2)
  from Alt.prems consider "st' \<in> set (rmatch ic r1 st)" | "st' \<in> set (rmatch ic r2 st)"
    by auto
  then show ?case using Alt.IH by cases blast+
next
  case (Star r)
  from Star.prems have "st' \<in> set (star_iter (length (m_rest st)) (rmatch ic r) st)"
    by simp
  then show ?case
    by (rule star_iter_rest_subset [rotated]) (rule Star.IH)
next
  case (Plus r)
  from Plus.prems obtain st1 where 1: "st1 \<in> set (rmatch ic r st)"
    "st' \<in> set (star_iter (length (m_rest st)) (rmatch ic r) st1)"
    by auto
  have "set (m_rest st') \<subseteq> set (m_rest st1)"
    using 1(2) by (rule star_iter_rest_subset [rotated]) (rule Plus.IH)
  moreover have "set (m_rest st1) \<subseteq> set (m_rest st)"
    using 1(1) by (rule Plus.IH)
  ultimately show ?case by blast
next
  case (Opt r)
  from Opt.prems consider "st' \<in> set (rmatch ic r st)" | "st' = st"
    by auto
  then show ?case using Opt.IH by cases auto
next
  case (Times n r)
  from Times.prems have "st' \<in> set (times_iter n (rmatch ic r) st)"
    by simp
  then show ?case
    by (rule times_iter_rest_subset [rotated]) (rule Times.IH)
next
  case (Grp i r)
  from Grp.prems obtain st1 where "st1 \<in> set (rmatch ic r st)" "st' = close_group i st st1"
    by auto
  then show ?case using Grp.IH [of st1 st] by (simp add: close_group_def)
qed

lemma seq_dead_right:
  "(\<And>st1. st1 \<in> set (rmatch ic r1 st) \<Longrightarrow> rmatch ic r2 st1 = []) \<Longrightarrow>
   rmatch ic (Seq r1 r2) st = []"
  by simp

lemma seq_dead_left: "rmatch ic r1 st = [] \<Longrightarrow> rmatch ic (Seq r1 r2) st = []"
  by simp

lemma no_dollar_no_figures:
  assumes "CHR ''$'' \<notin> set T"
  shows "\<not> re_search False two_figures_re T"
  unfolding re_search_def
proof (rule search_from_none)
  fix st :: mstate
  assume "set (m_rest st) \<subseteq> set T"
  then have "\<forall>c \<in> set (m_rest st). \<not> lit_match False CHR ''$'' c"
    using assms by (auto simp: lit_match_def)
  then have "rmatch False (Lit CHR ''$'') st = []"
    by (simp add: one_char_none)
  then have "rmatch False dollar_figure st = []"
    unfolding dollar_figure_def by (rule seq_dead_left)
  then show "rmatch False two_figures_re st = []"
    by (simp add: two_figures_re_def seqs_def)
qed

lemma lower_char_percent: "lower_char c = CHR ''%'' \<Longrightarrow> c = CHR ''%''"
proof (cases "(65 \<le> cp c \<and> cp c \<le> 90) \<or> (192 \<le> cp c \<and> cp c \<le> 222 \<and> cp c \<noteq> 215)")
  case True
  assume eq: "lower_char c = CHR ''%''"
  from True have "cp (lower_char c) = cp c + 32"
    using cp_range [of c] by (auto simp: lower_char_def cp_char_of)
  moreover have "cp (CHR ''%'') = 37"
    by (simp add: cp_def)
  ultimately show ?thesis using True eq by auto
next
  case False
  assume eq: "lower_char c = CHR ''%''"
  from False have "lower_char c = c"
    unfolding lower_char_def by (rule if_not_P)
  with eq show ?thesis by simp
qed

lemma no_percent_dead:
  assumes "CHR ''%'' \<notin> set (m_rest st)"
  shows "rmatch ic percent_re st = []"
  unfolding percent_re_def
proof (rule seq_dead_right)
  fix st1
  assume "st1 \<in> set (rmatch ic (Plus digit_re) st)"
  then have "set (m_rest st1) \<subseteq> set (m_rest st)"
    by (rule rmatch_rest_subset)
  then have "CHR ''%'' \<notin> set (m_rest st1)"
    using assms by blast
  moreover have "lower_char CHR ''%'' = CHR ''%''"
    by code_simp
  ultimately have "\<forall>c \<in> set (m_rest st1). \<not> lit_match ic CHR ''%'' c"
    using lower_char_percent by (auto simp: lit_match_def)
  then show "rmatch ic (Lit CHR ''%'') st1 = []"
    by (simp add: one_char_none)
qed

lemma no_percent_no_roi_percent:
  assumes "CHR ''%'' \<notin> set T"
  shows "\<not> re_search True roi_percent_re T"
  unfolding re_search_def
proof (rule search_from_none)
  fix st :: mstate
  assume sub: "set (m_rest st) \<subseteq> set T"
  then have "CHR ''%'' \<notin> set (m_rest st)"
    using assms by blast
  then have "rmatch True percent_re st = []"
    by (rule no_percent_dead)
  then have left: "rmatch True (seqs [percent_re, Star AnyChar, word_re ''roi'']) st = []"
    by (simp add: seqs_def)
  have "rmatch True (Seq (word_re ''roi'') (Seq (Star AnyChar) (Seq percent_re Eps))) st = []"
  proof (rule seq_dead_right)
    fix st1
    assume 1: "st1 \<in> set (rmatch True (word_re ''roi'') st)"
    show "rmatch True (Seq (Star AnyChar) (Seq percent_re Eps)) st1 = []"
    proof (rule seq_dead_right)
      fix st2
      assume 2: "st2 \<in> set (rmatch True (Star AnyChar) st1)"
      have "set (m_rest st2) \<subseteq> set (m_rest st)"
        using rmatch_rest_subset [OF 1] rmatch_rest_subset [OF 2] by blast
      then have "CHR ''%'' \<notin> set (m_rest st2)"
        using sub assms by blast
      then have "rmatch True percent_re st2 = []"
        by (rule no_percent_dead)
      then show "rmatch True (Seq percent_re Eps) st2 = []"
        by (rule seq_dead_left)
    qed
  qed
  then have right: "rmatch True (seqs [word_re ''roi'', Star AnyChar, percent_re]) st = []"
    by (simp add: seqs_def)
  show "rmatch True roi_percent_re st = []"
    unfolding roi_percent_re_def using left right by simp
qed





section \<open>What a match has read\<close>

lemma reads_refl: "reads st st []"
  by (simp add: reads_def)

lemma reads_trans: "reads st st1 u \<Longrightarrow> reads st1 st' v \<Longrightarrow> reads st st' (u @ v)"
  by (simp add: reads_def)

lemma one_char_sound:
  assumes "st' \<in> set (one_char P st)"
  shows "\<exists>c. P c \<and> reads st st' [c] \<and> m_caps st' = m_caps st"
  using assms by (cases "m_rest st") (auto simp: one_char_def reads_def split: if_splits)

lemma star_iter_sound:
  assumes step: "\<And>st st'. st' \<in> set (f st) \<Longrightarrow> \<exists>w. reads st st' w \<and> accepts ic r w"
  shows "st' \<in> set (star_iter n f st) \<Longrightarrow> \<exists>w. reads st st' w \<and> accepts ic (Star r) w"
proof (induction n arbitrary: st)
  case 0
  then show ?case using reads_refl acc_Star0 by auto
next
  case (Suc n)
  from Suc.prems consider "st' = st"
    | st1 where "st1 \<in> set (f st)" "st' \<in> set (star_iter n f st1)"
    by (auto split: if_splits)
  then show ?case
  proof cases
    case 1
    then show ?thesis using reads_refl acc_Star0 by auto
  next
    case 2
    from step [OF 2(1)] obtain u where u: "reads st st1 u" "accepts ic r u" by blast
    from Suc.IH [OF 2(2)] obtain v where v: "reads st1 st' v" "accepts ic (Star r) v" by blast
    show ?thesis
      using reads_trans [OF u(1) v(1)] acc_StarS [OF u(2) v(2)] by blast
  qed
qed

lemma times_iter_sound:
  assumes step: "\<And>st st'. st' \<in> set (f st) \<Longrightarrow> \<exists>w. reads st st' w \<and> accepts ic r w"
  shows "st' \<in> set (times_iter n f st) \<Longrightarrow> \<exists>w. reads st st' w \<and> accepts ic (Times n r) w"
proof (induction n arbitrary: st)
  case 0
  then show ?case using reads_refl acc_Times0 by auto
next
  case (Suc n)
  then obtain st1 where 1: "st1 \<in> set (f st)" "st' \<in> set (times_iter n f st1)"
    by auto
  from step [OF 1(1)] obtain u where u: "reads st st1 u" "accepts ic r u" by blast
  from Suc.IH [OF 1(2)] obtain v where v: "reads st1 st' v" "accepts ic (Times n r) v" by blast
  show ?case
    using reads_trans [OF u(1) v(1)] acc_TimesS [OF u(2) v(2)] by blast
qed

lemma rmatch_sound:
  "st' \<in> set (rmatch ic r st) \<Longrightarrow> \<exists>w. reads st st' w \<and> accepts ic r w"
proof (induction r arbitrary: st st')
  case Eps
  then show ?case using reads_refl acc_Eps by auto
next
  case (Lit x)
  then have "st' \<in> set (one_char (lit_match ic x) st)" by simp
  from one_char_sound [OF this] obtain c where "lit_match ic x c" "reads st st' [c]"
    by auto
  then show ?case using acc_Lit by blast
next
  case (Class items)
  then have "st' \<in> set (one_char (\<lambda>c. list_ex (\<lambda>i. item_match ic i c) items) st)" by simp
  from one_char_sound [OF this] obtain c
    where "list_ex (\<lambda>i. item_match ic i c) items" "reads st st' [c]"
    by auto
  then show ?case using acc_Class by blast
next
  case AnyChar
  then have "st' \<in> set (one_char (\<lambda>c. c \<noteq> CHR 0x0A) st)" by simp
  from one_char_sound [OF this] obtain c where "c \<noteq> CHR 0x0A" "reads st st' [c]"
    by auto
  then show ?case using acc_AnyChar by blast
next
  case WordB
  then have "st' = st" by (simp split: if_splits)
  then show ?case using reads_refl acc_WordB by auto
next
  case (Seq r1 r2)
  from Seq.prems obtain st1 where 1: "st1 \<in> set (rmatch ic r1 st)" "st' \<in> set (rmatch ic r2 st1)"
    by auto
  from Seq.IH(1) [OF 1(1)] obtain u where u: "reads st st1 u" "accepts ic r1 u" by blast
  from Seq.IH(2) [OF 1(2)] obtain v where v: "reads st1 st' v" "accepts ic r2 v" by blast
  show ?case
    using reads_trans [OF u(1) v(1)] acc_Seq [OF u(2) v(2)] by blast
next
  case (Alt r1 r2)
  from Alt.prems consider "st' \<in> set (rmatch ic r1 st)" | "st' \<in> set (rmatch ic r2 st)"
    by auto
  then show ?case
  proof cases
    case 1
    from Alt.IH(1) [OF 1] show ?thesis using acc_Alt1 by blast
  next
    case 2
    from Alt.IH(2) [OF 2] show ?thesis using acc_Alt2 by blast
  qed
next
  case (Star r)
  from Star.prems have "st' \<in> set (star_iter (length (m_rest st)) (rmatch ic r) st)"
    by simp
  then show ?case
    by (rule star_iter_sound [rotated]) (rule Star.IH)
next
  case (Plus r)
  from Plus.prems obtain st1 where 1: "st1 \<in> set (rmatch ic r st)"
    "st' \<in> set (star_iter (length (m_rest st)) (rmatch ic r) st1)"
    by auto
  from Plus.IH [OF 1(1)] obtain u where u: "reads st st1 u" "accepts ic r u" by blast
  have "\<exists>w. reads st1 st' w \<and> accepts ic (Star r) w"
    using 1(2) by (rule star_iter_sound [rotated]) (rule Plus.IH)
  then obtain v where v: "reads st1 st' v" "accepts ic (Star r) v" by blast
  show ?case
    using reads_trans [OF u(1) v(1)] acc_Plus [OF u(2) v(2)] by blast
next
  case (Opt r)
  from Opt.prems consider "st' \<in> set (rmatch ic r st)" | "st' = st"
    by auto
  then show ?case
  proof cases
    case 1
    from Opt.IH [OF 1] show ?thesis using acc_Opt1 by blast
  next
    case 2
    then show ?thesis using reads_refl acc_Opt0 by auto
  qed
next
  case (Times n r)
  from Times.prems have "st' \<in> set (times_iter n (rmatch ic r) st)"
    by simp
  then show ?case
    by (rule times_iter_sound [rotated]) (rule Times.IH)
next
  case (Grp i r)
  from Grp.prems obtain st1 where 1: "st1 \<in> set (rmatch ic r st)" "st' = close_group i st st1"
    by auto
  from Grp.IH [OF 1(1)] obtain w where "reads st st1 w" "accepts ic r w" by blast
  then show ?case
    using 1(2) acc_Grp by (auto simp: reads_def close_group_def)
qed





text \<open>Runs of digits.\<close>

lemma accepts_digit: "accepts ic digit_re u \<longleftrightarrow> (\<exists>c. u = [c] \<and> is_digit c)"
  by (auto simp: digit_re_def accepts_Class)

lemma accepts_star_digits_aux:
  "accepts ic r w \<Longrightarrow> r = Star digit_re \<Longrightarrow> list_all is_digit w"
  by (induction rule: accepts.induct) (auto simp: accepts_digit)

lemma accepts_plus_digits:
  assumes "accepts ic (Plus digit_re) w"
  shows "w \<noteq> [] \<and> list_all is_digit w"
proof -
  from assms obtain u v where "w = u @ v" "accepts ic digit_re u" "accepts ic (Star digit_re) v"
    by (auto simp: accepts_Plus)
  then show ?thesis
    using accepts_star_digits_aux [of ic "Star digit_re" v] by (auto simp: accepts_digit)
qed

section \<open>A correctly spelled word in the spelling table\<close>




section \<open>ROI clarity\<close>

text \<open>
  Two dollar figures and the multiplier \<open>9.3x ROI\<close> score 75, not 95: the third tier asks
  for digits followed by a percent sign.
\<close>

theorem multiplier_is_not_a_percentage:
  "score_roi_clarity ''$350,000 and $3.25M, 9.3x ROI'' = 75"
  by code_simp

lemma search_from_sound:
  "search_from ic r p s \<Longrightarrow> \<exists>a w b. s = a @ w @ b \<and> accepts ic r w"
proof (induction s arbitrary: p)
  case Nil
  then obtain st' where "st' \<in> set (rmatch ic r \<lparr>m_prev = p, m_rest = [], m_caps = []\<rparr>)"
    by (cases "rmatch ic r \<lparr>m_prev = p, m_rest = [], m_caps = []\<rparr>") auto
  from rmatch_sound [OF this] obtain w where "[] = w @ m_rest st'" "accepts ic r w"
    by (auto simp: reads_def)
  then show ?case by auto
next
  case (Cons c s)
  then consider "rmatch ic r \<lparr>m_prev = p, m_rest = c # s, m_caps = []\<rparr> \<noteq> []"
    | "search_from ic r (Some c) s"
    by auto
  then show ?case
  proof cases
    case 1
    then obtain st' where "st' \<in> set (rmatch ic r \<lparr>m_prev = p, m_rest = c # s, m_caps = []\<rparr>)"
      by (cases "rmatch ic r \<lparr>m_prev = p, m_rest = c # s, m_caps = []\<rparr>") auto
    from rmatch_sound [OF this] obtain w where "c # s = w @ m_rest st'" "accepts ic r w"
      by (auto simp: reads_def)
    then have "c # s = [] @ w @ m_rest st' \<and> accepts ic r w" by simp
    then show ?thesis by blast
  next
    case 2
    from Cons.IH [OF 2] obtain a w b where "s = a @ w @ b" "accepts ic r w" by blast
    then have "c # s = (c # a) @ w @ b \<and> accepts ic r w" by simp
    then show ?thesis by blast
  qed
qed

lemma re_search_sound:
  "re_search ic r s \<Longrightarrow> \<exists>a w b. s = a @ w @ b \<and> accepts ic r w"
  unfolding re_search_def by (rule search_from_sound)

lemma accepts_star_class_aux:
  "accepts ic r w \<Longrightarrow> r = Star (Class items) \<Longrightarrow>
   list_all (\<lambda>c. list_ex (\<lambda>i. item_match ic i c) items) w"
  by (induction rule: accepts.induct) (auto simp: accepts_Class)

lemma accepts_plus_class:
  assumes "accepts ic (Plus (Class items)) w"
  shows "w \<noteq> [] \<and> list_all (\<lambda>c. list_ex (\<lambda>i. item_match ic i c) items) w"
proof -
  from assms obtain u v where "w = u @ v" "accepts ic (Class items) u"
    "accepts ic (Star (Class items)) v"
    by (auto simp: accepts_Plus)
  then show ?thesis
    using accepts_star_class_aux [of ic "Star (Class items)" v items]
    by (auto simp: accepts_Class)
qed

lemma accepts_star_any_aux:
  "accepts ic r w \<Longrightarrow> r = Star AnyChar \<Longrightarrow> NL \<notin> set w"
  by (induction rule: accepts.induct) (auto simp: accepts_AnyChar NL_def)

lemma accepts_dollar_figure:
  assumes "accepts False dollar_figure w"
  shows "\<exists>c t. w = CHR ''$'' # c # t \<and> (is_digit c \<or> c = CHR '','') \<and> NL \<notin> set (c # t)"
proof -
  from assms obtain d where w: "w = CHR ''$'' # d"
    and d: "accepts False (Plus (Class [CDigit, CChar CHR '',''])) d"
    by (auto simp: dollar_figure_def accepts_Seq accepts_Lit lit_match_def)
  from accepts_plus_class [OF d] have ne: "d \<noteq> []"
    and all: "list_all (\<lambda>c. is_digit c \<or> c = CHR '','') d"
    by (simp_all add: lit_match_def)
  have nl: "\<not> is_digit NL" "NL \<noteq> CHR '',''"
    by code_simp+
  then have "NL \<notin> set d"
    using all by (auto simp: list_all_iff)
  moreover obtain c t where "d = c # t"
    using ne by (cases d) auto
  ultimately show ?thesis
    using w all by auto
qed

lemma two_figures_iff: "re_search False two_figures_re T \<longleftrightarrow> has_two_dollar_figures T"
proof
  assume "re_search False two_figures_re T"
  from re_search_sound [OF this] obtain a w b where T: "T = a @ w @ b"
    and w: "accepts False two_figures_re w" by blast
  from w obtain f1 m f2 where parts: "w = f1 @ m @ f2" "accepts False dollar_figure f1"
    "accepts False (Star AnyChar) m" "accepts False dollar_figure f2"
    by (auto simp: two_figures_re_def seqs_def accepts_Seq accepts_Eps)
  from accepts_dollar_figure [OF parts(2)] obtain c1 t1
    where f1: "f1 = CHR ''$'' # c1 # t1" "is_digit c1 \<or> c1 = CHR '',''" "NL \<notin> set (c1 # t1)"
    by blast
  from accepts_dollar_figure [OF parts(4)] obtain c2 t2
    where f2: "f2 = CHR ''$'' # c2 # t2" "is_digit c2 \<or> c2 = CHR '',''"
    by blast
  have m: "NL \<notin> set m"
    using accepts_star_any_aux [OF parts(3)] by simp
  have "T = a @ ''$'' @ [c1] @ (t1 @ m) @ ''$'' @ [c2] @ (t2 @ b)"
    using T parts(1) f1(1) f2(1) by simp
  moreover have "NL \<notin> set (t1 @ m)"
    using f1(3) m by simp
  ultimately show "has_two_dollar_figures T"
    unfolding has_two_dollar_figures_def using f1(2) f2(2) by blast
next
  assume "has_two_dollar_figures T"
  then obtain a c1 m c2 b where "T = a @ ''$'' @ [c1] @ m @ ''$'' @ [c2] @ b"
    "is_digit c1 \<or> c1 = CHR '',''" "is_digit c2 \<or> c2 = CHR '',''" "NL \<notin> set m"
    unfolding has_two_dollar_figures_def by blast
  then show "re_search False two_figures_re T"
    using two_figures_found [of c1 c2 m a b] by simp
qed

lemma accepts_percent:
  assumes "accepts True percent_re w"
  shows "\<exists>t d. w = t @ [d] @ ''%'' \<and> is_digit d \<and> NL \<notin> set t"
proof -
  have pc: "lower_char CHR ''%'' = CHR ''%''" by code_simp
  from assms obtain ds c where w: "w = ds @ [c]" and ds: "accepts True (Plus digit_re) ds"
    and c: "lower_char c = CHR ''%''"
    by (auto simp: percent_re_def accepts_Seq accepts_Lit lit_match_def pc)
  have c': "c = CHR ''%''"
    using c by (rule lower_char_percent)
  from accepts_plus_digits [OF ds] have "ds \<noteq> []" "list_all is_digit ds"
    by simp_all
  then have "ds = butlast ds @ [last ds]" "is_digit (last ds)" "\<forall>c \<in> set (butlast ds). is_digit c"
    by (auto simp: list_all_iff dest: in_set_butlastD)
  moreover have "\<not> is_digit NL" by code_simp
  ultimately have "w = butlast ds @ [last ds] @ ''%'' \<and> is_digit (last ds) \<and>
      NL \<notin> set (butlast ds)"
    using w c' by auto
  then show ?thesis by blast
qed

lemma accepts_roi:
  assumes "accepts True (word_re ''roi'') w"
  shows "lower w = ''roi''"
proof -
  have low: "lower_char CHR ''r'' = CHR ''r''" "lower_char CHR ''o'' = CHR ''o''"
    "lower_char CHR ''i'' = CHR ''i''"
    by code_simp+
  from assms show ?thesis
    by (auto simp: word_re_def accepts_Seq accepts_Lit accepts_Eps lit_match_def lower_def low)
qed

lemma roi_percent_iff: "re_search True roi_percent_re T \<longleftrightarrow> has_roi_percentage T"
proof
  assume "re_search True roi_percent_re T"
  from re_search_sound [OF this] obtain a w b where T: "T = a @ w @ b"
    and w: "accepts True roi_percent_re w" by blast
  from w consider p m r where "w = p @ m @ r" "accepts True percent_re p"
      "accepts True (Star AnyChar) m" "accepts True (word_re ''roi'') r"
    | p m r where "w = r @ m @ p" "accepts True percent_re p"
      "accepts True (Star AnyChar) m" "accepts True (word_re ''roi'') r"
    by (auto simp: roi_percent_re_def seqs_def accepts_Alt accepts_Seq accepts_Eps)
  then show "has_roi_percentage T"
  proof cases
    case 1
    from accepts_percent [OF 1(2)] obtain t d where p: "p = t @ [d] @ ''%''" "is_digit d"
      by blast
    have "T = (a @ t) @ [d] @ ''%'' @ m @ r @ b"
      using T 1(1) p(1) by simp
    moreover have "NL \<notin> set m"
      using accepts_star_any_aux [OF 1(3)] by simp
    moreover have "lower r = ''roi''"
      using 1(4) by (rule accepts_roi)
    ultimately show ?thesis
      unfolding has_roi_percentage_def using p(2) by blast
  next
    case 2
    from accepts_percent [OF 2(2)] obtain t d
      where p: "p = t @ [d] @ ''%''" "is_digit d" "NL \<notin> set t"
      by blast
    have "T = a @ r @ (m @ t) @ [d] @ ''%'' @ b"
      using T 2(1) p(1) by simp
    moreover have "NL \<notin> set (m @ t)"
      using accepts_star_any_aux [OF 2(3)] p(3) by simp
    moreover have "lower r = ''roi''"
      using 2(4) by (rule accepts_roi)
    ultimately show ?thesis
      unfolding has_roi_percentage_def using p(2) by blast
  qed
next
  assume "has_roi_percentage T"
  then obtain a d m w b
    where "T = a @ [d] @ ''%'' @ m @ w @ b \<or> T = a @ w @ m @ [d] @ ''%'' @ b"
      "is_digit d" "NL \<notin> set m" "lower w = ''roi''"
    unfolding has_roi_percentage_def by blast
  then show "re_search True roi_percent_re T"
    using roi_percent_found_after [of d m w a b] roi_percent_found_before [of d m w a b]
    by auto
qed

lemma map_eq_middle:
  assumes "map f T = x @ k @ y"
  shows "\<exists>a w b. T = a @ w @ b \<and> map f w = k"
proof -
  from assms [unfolded map_eq_append_conv] obtain a wb
    where 1: "T = a @ wb" "k @ y = map f wb"
    by blast
  from 1(2) [symmetric, unfolded map_eq_append_conv] obtain w b
    where 2: "wb = w @ b" "k = map f w"
    by blast
  show ?thesis
    using 1(1) 2 by auto
qed

lemma mentions_roi_iff: "py_in ''roi'' (lower T) \<longleftrightarrow> mentions_roi T"
proof
  assume "py_in ''roi'' (lower T)"
  then obtain x y where "map lower_char T = x @ ''roi'' @ y"
    unfolding py_in_iff lower_def by (elim exE)
  then have "\<exists>a w b. T = a @ w @ b \<and> map lower_char w = ''roi''"
    by (rule map_eq_middle)
  then show "mentions_roi T"
    unfolding mentions_roi_def lower_def .
next
  assume "mentions_roi T"
  then obtain a w b where "T = a @ w @ b" "lower w = ''roi''"
    unfolding mentions_roi_def by (elim exE conjE)
  then have "lower T = lower a @ ''roi'' @ lower b"
    by (simp add: lower_def)
  then have "\<exists>x y. lower T = x @ ''roi'' @ y"
    by (intro exI)
  then show "py_in ''roi'' (lower T)"
    unfolding py_in_iff .
qed

text \<open>
  C5, amended. The score is 95 exactly for a text with two dollar figures on one line and
  a percentage (a digit followed by \<open>%\<close>) on one line with the word \<open>roi\<close>, in any case,
  before or after it; 75 exactly for a text with two dollar figures on one line and no
  such percentage; 60 exactly for a text without two dollar figures on one line that
  contains \<open>roi\<close> in any case; and 30 for every other text.  A multiplier such as
  \<open>9.3x ROI\<close> is no percentage.
\<close>

theorem roi_clarity_tiers:
  "score_roi_clarity T =
     (if has_two_dollar_figures T then (if has_roi_percentage T then 95 else 75)
      else if mentions_roi T then 60 else 30) \<and>
   score_roi_clarity ''Cost $350,000, value $3M: ROI 250%'' = 95 \<and>
   score_roi_clarity ''$1 and $2, up 5%'' = 75 \<and>
   score_roi_clarity ''Fee $5, roi'' = 60 \<and>
   score_roi_clarity ''Fee $5'' = 30"
proof -
  have "score_roi_clarity T =
     (if has_two_dollar_figures T then (if has_roi_percentage T then 95 else 75)
      else if mentions_roi T then 60 else 30)"
    by (simp add: score_roi_clarity_def two_figures_iff roi_percent_iff mentions_roi_iff)
  moreover have "score_roi_clarity ''Cost $350,000, value $3M: ROI 250%'' = 95"
    by code_simp
  moreover have "score_roi_clarity ''$1 and $2, up 5%'' = 75"
    by code_simp
  moreover have "score_roi_clarity ''Fee $5, roi'' = 60"
    by code_simp
  moreover have "score_roi_clarity ''Fee $5'' = 30"
    by code_simp
  ultimately show ?thesis
    by (intro conjI)
qed

section \<open>One more misspelling\<close>

lemma split_on_single: "d \<notin> set w \<Longrightarrow> split_on d w = [w]"
  by (induction w) auto

lemma py_in_single: "py_in [c] s \<longleftrightarrow> c \<in> set s"
  by (induction s) auto

lemma misspelled_table:
  "spelling_patterns =
     map (\<lambda>(w, corr). word_rule w corr)
       [(''acheive'', ''achieve''), (''beleive'', ''believe''), (''aproach'', ''approach''),
        (''experiance'', ''experience''), (''accurate'', ''accurate''),
        (''recieve'', ''receive''), (''propsal'', ''proposal'')]"
  by (simp add: spelling_patterns_def)

lemma split_on_two_parts:
  "split_on d (u @ v) =
     butlast (split_on d u) @ [last (split_on d u) @ hd (split_on d v)] @ tl (split_on d v)"
proof (induction u)
  case Nil
  show ?case
    using split_on_not_Nil [of d v] by simp
next
  case (Cons c u)
  obtain s ss where s: "split_on d u = s # ss"
    using split_on_not_Nil [of d u] by (cases "split_on d u") auto
  show ?case
  proof (cases "c = d")
    case True
    then show ?thesis
      using Cons s by simp
  next
    case False
    show ?thesis
    proof (cases ss)
      case Nil
      then show ?thesis
        using Cons s False by simp
    next
      case (Cons s2 ss2)
      then show ?thesis
        using Cons.IH s False by simp
    qed
  qed
qed

lemma lines_after_insertion:
  assumes "NL \<notin> set x"
  shows "split_on NL (A @ x @ B) =
     butlast (split_on NL A) @ [last (split_on NL A) @ x @ hd (split_on NL B)] @
     tl (split_on NL B)"
proof -
  have x: "split_on NL x = [x]"
    using assms by (rule split_on_single)
  have "split_on NL (x @ B) = [x @ hd (split_on NL B)] @ tl (split_on NL B)"
    using split_on_two_parts [of NL x B] by (simp add: x)
  then show ?thesis
    using split_on_two_parts [of NL A "x @ B"] by simp
qed

lemma lines_before_insertion:
  "split_on NL (A @ B) =
     butlast (split_on NL A) @ [last (split_on NL A) @ hd (split_on NL B)] @ tl (split_on NL B)"
  by (rule split_on_two_parts)

lemma records_of_lines:
  "concat (map f (enumerate (Suc 0) (ls1 @ [l] @ ls2))) =
     concat (map f (enumerate (Suc 0) ls1)) @ f (Suc (length ls1), l) @
     concat (map f (enumerate (Suc (Suc (length ls1))) ls2))"
  by (simp add: enumerate_append_eq)

lemma penalty_length: "penalty xs = of_nat (5 * length xs)"
  by (simp add: penalty_def)

lemma filter_one_more:
  assumes d: "distinct (map fst rules)"
    and mem: "(p, r, corr) \<in> set rules"
    and others: "list_all (\<lambda>(p', r', c'). p' = p \<or> m' r' = m r') rules"
    and after: "m' r"
  shows "if m r
         then filter (\<lambda>(p, r, c). m' r) rules = filter (\<lambda>(p, r, c). m r) rules
         else \<exists>P1 P2. filter (\<lambda>(p, r, c). m r) rules = P1 @ P2 \<and>
                filter (\<lambda>(p, r, c). m' r) rules = P1 @ [(p, r, corr)] @ P2"
proof -
  from mem obtain R1 R2 where rules: "rules = R1 @ (p, r, corr) # R2"
    by (auto simp: in_set_conv_decomp)
  have notin: "p \<notin> fst ` set R1" "p \<notin> fst ` set R2"
    using d unfolding rules by auto
  have same1: "filter (\<lambda>(p, r, c). m' r) R1 = filter (\<lambda>(p, r, c). m r) R1"
  proof (rule filter_cong [OF refl])
    fix y assume y: "y \<in> set R1"
    obtain p' r' c' where yy: "y = (p', r', c')" by (cases y) auto
    have "p' \<noteq> p" using y notin(1) yy by force
    moreover have "p' = p \<or> m' r' = m r'"
      using others y yy unfolding rules by (auto simp: list_all_iff)
    ultimately show "(case y of (p, r, c) \<Rightarrow> m' r) = (case y of (p, r, c) \<Rightarrow> m r)"
      by (simp add: yy)
  qed
  have same2: "filter (\<lambda>(p, r, c). m' r) R2 = filter (\<lambda>(p, r, c). m r) R2"
  proof (rule filter_cong [OF refl])
    fix y assume y: "y \<in> set R2"
    obtain p' r' c' where yy: "y = (p', r', c')" by (cases y) auto
    have "p' \<noteq> p" using y notin(2) yy by force
    moreover have "p' = p \<or> m' r' = m r'"
      using others y yy unfolding rules by (auto simp: list_all_iff)
    ultimately show "(case y of (p, r, c) \<Rightarrow> m' r) = (case y of (p, r, c) \<Rightarrow> m r)"
      by (simp add: yy)
  qed
  show ?thesis
  proof (cases "m r")
    case True
    then show ?thesis
      using after by (simp add: rules same1 same2)
  next
    case False
    have "filter (\<lambda>(p, r, c). m r) rules =
        filter (\<lambda>(p, r, c). m r) R1 @ filter (\<lambda>(p, r, c). m r) R2"
      using False by (simp add: rules)
    moreover have "filter (\<lambda>(p, r, c). m' r) rules =
        filter (\<lambda>(p, r, c). m r) R1 @ [(p, r, corr)] @ filter (\<lambda>(p, r, c). m r) R2"
      using after by (simp add: rules same1 same2)
    ultimately show ?thesis
      using False by auto
  qed
qed

lemma filter_unchanged:
  assumes "list_all (\<lambda>(p', r', c'). m' r' = m r') rules"
  shows "filter (\<lambda>(p, r, c). m' r) rules = filter (\<lambda>(p, r, c). m r) rules"
  using assms by (intro filter_cong [OF refl]) (auto simp: list_all_iff)

lemma spelling_keys:
  "map record_key (spelling_records n l rules) =
     map (\<lambda>(p, r, c). (n, spelling_display p, c)) (filter (\<lambda>(p, r, c). re_search True r l) rules)"
  by (simp add: spelling_records_def record_key_def comp_def case_prod_unfold)

lemma grammar_keys:
  "map record_key (grammar_records n l rules) =
     map (\<lambda>(p, r, c). (n, grammar_display p, c)) (filter (\<lambda>(p, r, c). re_search True r l) rules)"
  by (simp add: grammar_records_def record_key_def comp_def case_prod_unfold)

lemma spelling_table_words:
  assumes "word_rule w corr \<in> set spelling_patterns"
  shows "spelling_display (fst (word_rule w corr)) = w \<and> lower w = w \<and> w \<noteq> [] \<and>
         is_word (hd w) \<and> is_word (last w)"
proof -
  let ?L = "[(''acheive'', ''achieve''), (''beleive'', ''believe''), (''aproach'', ''approach''),
      (''experiance'', ''experience''), (''accurate'', ''accurate''),
      (''recieve'', ''receive''), (''propsal'', ''proposal'')]"
  have all: "list_all (\<lambda>(w, corr). spelling_display (fst (word_rule w corr)) = w \<and> lower w = w \<and>
      w \<noteq> [] \<and> is_word (hd w) \<and> is_word (last w)) ?L"
    by code_simp
  from assms have "word_rule w corr \<in> (\<lambda>(w, corr). word_rule w corr) ` set ?L"
    by (simp only: misspelled_table set_map)
  then obtain y where y: "y \<in> set ?L" "word_rule w corr = (case y of (w, corr) \<Rightarrow> word_rule w corr)"
    by (rule imageE)
  obtain w' c' where yp: "y = (w', c')"
    by (cases y)
  note mem' = y(1) [unfolded yp]
  note eq = y(2) [unfolded yp prod.case]
  from eq have "w = w'" and "corr = c'"
    by (simp_all add: word_rule_def)
  with mem' have mem: "(w, corr) \<in> set ?L" by simp
  show ?thesis
    by (rule all [unfolded list_all_iff, rule_format, OF mem, unfolded prod.case])
qed

lemma spelling_patterns_distinct: "distinct (map fst spelling_patterns)"
  by code_simp

lemma keys_of_lines:
  assumes "split_on NL T = ls1 @ [l] @ ls2"
  shows "map record_key (spelling_errors (detect_errors T)) =
           map record_key (concat (map (\<lambda>(k, l). spelling_records k l spelling_patterns)
                                    (enumerate (Suc 0) ls1))) @
           map record_key (spelling_records (Suc (length ls1)) l spelling_patterns) @
           map record_key (concat (map (\<lambda>(k, l). spelling_records k l spelling_patterns)
                                    (enumerate (Suc (Suc (length ls1))) ls2)))"
    and "map record_key (grammar_errors (detect_errors T)) =
           map record_key (concat (map (\<lambda>(k, l). grammar_records k l grammar_patterns)
                                    (enumerate (Suc 0) ls1))) @
           map record_key (grammar_records (Suc (length ls1)) l grammar_patterns) @
           map record_key (concat (map (\<lambda>(k, l). grammar_records k l grammar_patterns)
                                    (enumerate (Suc (Suc (length ls1))) ls2)))"
    and "calculation_errors (detect_errors T) =
           concat (map (\<lambda>(k, l). calculation_records k (re_findall calc_pattern l))
                     (enumerate (Suc 0) ls1)) @
           calculation_records (Suc (length ls1)) (re_findall calc_pattern l) @
           concat (map (\<lambda>(k, l). calculation_records k (re_findall calc_pattern l))
                     (enumerate (Suc (Suc (length ls1))) ls2))"
  unfolding detect_errors_eq assms by (simp_all add: enumerate_append_eq)

lemma clamp_mono:
  fixes b :: rat
  shows "b' \<le> b \<Longrightarrow> max 0 (min 100 b') \<le> max 0 (min 100 b)"
  by auto

lemma clamp_strict:
  fixes b :: rat
  shows "b' < b \<Longrightarrow> 0 < b \<Longrightarrow> b' < 100 \<Longrightarrow> max 0 (min 100 b') < max 0 (min 100 b)"
  by auto

lemma base_score_one_more:
  assumes "length (spelling_errors E') = Suc (length (spelling_errors E))"
    and "length (grammar_errors E') = length (grammar_errors E)"
    and "length (calculation_errors E') = length (calculation_errors E)"
    and "length (consistency_errors E') = length (consistency_errors E)"
    and "length (logic_errors E') = length (logic_errors E)"
    and "(py_in ''$'' T' \<and> any_in [''roi'', ''investment'', ''return''] (lower T')) =
         (py_in ''$'' T \<and> any_in [''roi'', ''investment'', ''return''] (lower T))"
    and "length T < length T'"
  shows "base_score T' E' =
      base_score T E - 5 + (if length T \<le> 500 \<and> 500 < length T' then 5 else 0)"
proof -
  have "(if py_in ''$'' T' \<and> any_in [''roi'', ''investment'', ''return''] (lower T') then 10 else 0 :: rat) =
        (if py_in ''$'' T \<and> any_in [''roi'', ''investment'', ''return''] (lower T) then 10 else 0)"
    using assms(6) by simp
  moreover have "base_score T' E' =
      100 - penalty (spelling_errors E') - penalty (grammar_errors E')
        - penalty (consistency_errors E') - penalty (calculation_errors E')
        - penalty (logic_errors E') + (if 500 < length T' then 5 else 0)
        + (if py_in ''$'' T' \<and> any_in [''roi'', ''investment'', ''return''] (lower T') then 10 else 0)"
    by (simp add: base_score_def Let_def)
  moreover have "base_score T E =
      100 - penalty (spelling_errors E) - penalty (grammar_errors E)
        - penalty (consistency_errors E) - penalty (calculation_errors E)
        - penalty (logic_errors E) + (if 500 < length T then 5 else 0)
        + (if py_in ''$'' T \<and> any_in [''roi'', ''investment'', ''return''] (lower T) then 10 else 0)"
    by (simp add: base_score_def Let_def)
  ultimately show ?thesis
    using assms(7) by (simp add: penalty_length assms(1-5))
qed


lemma inventory_examples:
  "detect_errors ''acheive'' =
     \<lparr>spelling_errors = [\<lparr>d_line = 1, d_text = ''acheive'', d_suggestion = ''achieve'',
                           d_original = ''acheive''\<rparr>],
      grammar_errors = [], consistency_errors = [], calculation_errors = [], logic_errors = []\<rparr>"
  "detect_errors ''acheive acheive'' =
     \<lparr>spelling_errors = [\<lparr>d_line = 1, d_text = ''acheive'', d_suggestion = ''achieve'',
                           d_original = ''acheive acheive''\<rparr>],
      grammar_errors = [], consistency_errors = [], calculation_errors = [], logic_errors = []\<rparr>"
  "detect_errors ''your going'' =
     \<lparr>spelling_errors = [],
      grammar_errors = [\<lparr>d_line = 1, d_text = ''your going'',
                          d_suggestion = ''you'' @ QUOTE @ ''re going'', d_original = ''your going''\<rparr>],
      consistency_errors = [], calculation_errors = [], logic_errors = []\<rparr>"
  "detect_errors ''your acheive going'' =
     \<lparr>spelling_errors = [\<lparr>d_line = 1, d_text = ''acheive'', d_suggestion = ''achieve'',
                           d_original = ''your acheive going''\<rparr>],
      grammar_errors = [], consistency_errors = [], calculation_errors = [], logic_errors = []\<rparr>"
  "detect_errors ''ROI $5'' =
     \<lparr>spelling_errors = [], grammar_errors = [], consistency_errors = [],
      calculation_errors = [], logic_errors = []\<rparr>"
  "detect_errors ''ROI $5 acheive'' =
     \<lparr>spelling_errors = [\<lparr>d_line = 1, d_text = ''acheive'', d_suggestion = ''achieve'',
                           d_original = ''ROI $5 acheive''\<rparr>],
      grammar_errors = [], consistency_errors = [], calculation_errors = [], logic_errors = []\<rparr>"
  by code_simp+


lemma split_on_separators: "split_on d (replicate n d) = replicate (Suc n) []"
  by (induction n) simp_all

lemma separators_then_word:
  assumes "NL \<notin> set w"
  shows "split_on NL (replicate n NL @ w) = replicate n [] @ [w]"
proof -
  have "split_on NL w = [w]"
    using assms by (rule split_on_single)
  moreover have r: "replicate (Suc n) ([] :: string) = replicate n [] @ [[]]"
    by (simp add: replicate_append_same)
  have "butlast (replicate (Suc n) ([] :: string)) = replicate n []"
    "last (replicate (Suc n) ([] :: string)) = []"
    unfolding r by simp_all
  ultimately show ?thesis
    using split_on_two_parts [of NL "replicate n NL" w]
    by (simp only: split_on_separators list.sel append_Nil append_Nil2)
qed

lemma empty_line_records:
  "spelling_records k [] spelling_patterns = []"
  "grammar_records k [] grammar_patterns = []"
  "calculation_records k (re_findall calc_pattern []) = []"
proof -
  have "filter (\<lambda>(p, r, corr). re_search True r []) spelling_patterns = []"
    by code_simp
  then show "spelling_records k [] spelling_patterns = []"
    by (simp add: spelling_records_def)
  have "filter (\<lambda>(p, r, corr). re_search True r []) grammar_patterns = []"
    by code_simp
  then show "grammar_records k [] grammar_patterns = []"
    by (simp add: grammar_records_def)
  have "re_findall calc_pattern [] = []"
    by code_simp
  then show "calculation_records k (re_findall calc_pattern []) = []"
    by (simp add: calculation_records_def)
qed

lemma records_of_empty_lines:
  assumes "\<And>k. f (k, []) = []"
  shows "concat (map f (enumerate m (replicate n []))) = []"
proof -
  have "f y = []" if "y \<in> set (enumerate m (replicate n []))" for y
  proof -
    obtain k l where y: "y = (k, l)" by (cases y)
    with that have "l = []"
      by (auto simp: in_set_enumerate_eq)
    then show ?thesis
      using assms y by simp
  qed
  then show ?thesis
    by simp
qed

lemma separators_then_acheive:
  "detect_errors (replicate n NL) =
     \<lparr>spelling_errors = [], grammar_errors = [], consistency_errors = [],
      calculation_errors = [], logic_errors = []\<rparr>"
  "detect_errors (replicate n NL @ ''acheive'') =
     \<lparr>spelling_errors = [\<lparr>d_line = Suc n, d_text = ''acheive'', d_suggestion = ''achieve'',
                           d_original = ''acheive''\<rparr>],
      grammar_errors = [], consistency_errors = [], calculation_errors = [], logic_errors = []\<rparr>"
proof -
  note e = records_of_empty_lines [of "\<lambda>(k, l). spelling_records k l spelling_patterns"]
    records_of_empty_lines [of "\<lambda>(k, l). grammar_records k l grammar_patterns"]
    records_of_empty_lines [of "\<lambda>(k, l). calculation_records k (re_findall calc_pattern l)"]
  have e1: "concat (map (\<lambda>(k, l). spelling_records k l spelling_patterns)
      (enumerate m (replicate j []))) = []" for m j
    by (rule e(1)) (simp add: empty_line_records)
  have e2: "concat (map (\<lambda>(k, l). grammar_records k l grammar_patterns)
      (enumerate m (replicate j []))) = []" for m j
    by (rule e(2)) (simp add: empty_line_records)
  have e3: "concat (map (\<lambda>(k, l). calculation_records k (re_findall calc_pattern l))
      (enumerate m (replicate j []))) = []" for m j
    by (rule e(3)) (simp add: empty_line_records)
  show "detect_errors (replicate n NL) =
     \<lparr>spelling_errors = [], grammar_errors = [], consistency_errors = [],
      calculation_errors = [], logic_errors = []\<rparr>"
    unfolding detect_errors_eq split_on_separators by (simp only: e1 e2 e3)
  have nl: "NL \<notin> set ''acheive''"
    by code_simp
  have w: "spelling_records k ''acheive'' spelling_patterns =
      [\<lparr>d_line = k, d_text = ''acheive'', d_suggestion = ''achieve'', d_original = ''acheive''\<rparr>]"
    "grammar_records k ''acheive'' grammar_patterns = []"
    "calculation_records k (re_findall calc_pattern ''acheive'') = []" for k
  proof -
    have f: "filter (\<lambda>(p, r, corr). re_search True r ''acheive'') spelling_patterns =
        [word_rule ''acheive'' ''achieve'']"
      "filter (\<lambda>(p, r, corr). re_search True r ''acheive'') grammar_patterns = []"
      "re_findall calc_pattern ''acheive'' = []"
      "spelling_display (fst (word_rule ''acheive'' ''achieve'')) = ''acheive''"
      "strip ''acheive'' = ''acheive''"
      by code_simp+
    show "spelling_records k ''acheive'' spelling_patterns =
      [\<lparr>d_line = k, d_text = ''acheive'', d_suggestion = ''achieve'', d_original = ''acheive''\<rparr>]"
      unfolding spelling_records_def f(1) using f(4) f(5) by (simp add: word_rule_def)
    show "grammar_records k ''acheive'' grammar_patterns = []"
      unfolding grammar_records_def f(2) by simp
    show "calculation_records k (re_findall calc_pattern ''acheive'') = []"
      unfolding f(3) by (simp add: calculation_records_def)
  qed
  show "detect_errors (replicate n NL @ ''acheive'') =
     \<lparr>spelling_errors = [\<lparr>d_line = Suc n, d_text = ''acheive'', d_suggestion = ''achieve'',
                           d_original = ''acheive''\<rparr>],
      grammar_errors = [], consistency_errors = [], calculation_errors = [], logic_errors = []\<rparr>"
    unfolding detect_errors_eq separators_then_word [OF nl]
    by (simp add: enumerate_append_eq e1 e2 e3 w)
qed

lemma length_bonus_example:
  "length (spelling_errors (detect_errors (replicate 500 NL @ ''acheive''))) =
     length (spelling_errors (detect_errors (replicate 500 NL))) + 1 \<and>
   calculate_quality_score (replicate 500 NL @ ''acheive'')
     (detect_errors (replicate 500 NL @ ''acheive'')) = 100 \<and>
   calculate_quality_score (replicate 500 NL) (detect_errors (replicate 500 NL)) = 100"
proof -
  have d: "\<not> py_in ''$'' (replicate 500 NL @ ''acheive'')" "\<not> py_in ''$'' (replicate 500 NL)"
    by (simp_all add: py_in_single NL_def)
  show ?thesis
    unfolding separators_then_acheive
    by (simp add: calculate_quality_score_def base_score_def penalty_def d)
qed

text \<open>
  The claim fails in four ways.  A second \<open>acheive\<close> put into a line that already has one
  adds no record, and the score stays 95.  Put between \<open>your\<close> and \<open>going\<close>, the word adds
  its record and takes away the grammar record of the line, and the score stays 95.  With
  the financial bonus the score before clamping goes from 110 to 105, and the overall
  score stays 100.  And the word that brings a text of 500 characters past that length
  brings the length bonus with it, and the overall score stays 100.
\<close>

theorem repeated_misspelling_on_one_line:
  "length (spelling_errors (detect_errors ''acheive acheive'')) =
     length (spelling_errors (detect_errors ''acheive'')) \<and>
   calculate_quality_score ''acheive acheive'' (detect_errors ''acheive acheive'') = 95 \<and>
   calculate_quality_score ''acheive'' (detect_errors ''acheive'') = 95 \<and>
   length (spelling_errors (detect_errors ''your acheive going'')) =
     length (spelling_errors (detect_errors ''your going'')) + 1 \<and>
   calculate_quality_score ''your acheive going'' (detect_errors ''your acheive going'') = 95 \<and>
   calculate_quality_score ''your going'' (detect_errors ''your going'') = 95 \<and>
   length (spelling_errors (detect_errors ''ROI $5 acheive'')) =
     length (spelling_errors (detect_errors ''ROI $5'')) + 1 \<and>
   calculate_quality_score ''ROI $5 acheive'' (detect_errors ''ROI $5 acheive'') = 100 \<and>
   calculate_quality_score ''ROI $5'' (detect_errors ''ROI $5'') = 100 \<and>
   length (spelling_errors (detect_errors (replicate 500 NL @ ''acheive''))) =
     length (spelling_errors (detect_errors (replicate 500 NL))) + 1 \<and>
   calculate_quality_score (replicate 500 NL @ ''acheive'')
     (detect_errors (replicate 500 NL @ ''acheive'')) = 100 \<and>
   calculate_quality_score (replicate 500 NL) (detect_errors (replicate 500 NL)) = 100"
proof -
  have short:
    "length (spelling_errors (detect_errors ''acheive acheive'')) =
       length (spelling_errors (detect_errors ''acheive'')) \<and>
     calculate_quality_score ''acheive acheive'' (detect_errors ''acheive acheive'') = 95 \<and>
     calculate_quality_score ''acheive'' (detect_errors ''acheive'') = 95 \<and>
     length (spelling_errors (detect_errors ''your acheive going'')) =
       length (spelling_errors (detect_errors ''your going'')) + 1 \<and>
     calculate_quality_score ''your acheive going'' (detect_errors ''your acheive going'') = 95 \<and>
     calculate_quality_score ''your going'' (detect_errors ''your going'') = 95 \<and>
     length (spelling_errors (detect_errors ''ROI $5 acheive'')) =
       length (spelling_errors (detect_errors ''ROI $5'')) + 1 \<and>
     calculate_quality_score ''ROI $5 acheive'' (detect_errors ''ROI $5 acheive'') = 100 \<and>
     calculate_quality_score ''ROI $5'' (detect_errors ''ROI $5'') = 100"
    unfolding inventory_examples by code_simp
  note c = short [THEN conjunct1] short [THEN conjunct2, THEN conjunct1]
    short [THEN conjunct2, THEN conjunct2, THEN conjunct1]
    short [THEN conjunct2, THEN conjunct2, THEN conjunct2, THEN conjunct1]
    short [THEN conjunct2, THEN conjunct2, THEN conjunct2, THEN conjunct2, THEN conjunct1]
    short [THEN conjunct2, THEN conjunct2, THEN conjunct2, THEN conjunct2, THEN conjunct2,
      THEN conjunct1]
    short [THEN conjunct2, THEN conjunct2, THEN conjunct2, THEN conjunct2, THEN conjunct2,
      THEN conjunct2, THEN conjunct1]
    short [THEN conjunct2, THEN conjunct2, THEN conjunct2, THEN conjunct2, THEN conjunct2,
      THEN conjunct2, THEN conjunct2, THEN conjunct1]
    short [THEN conjunct2, THEN conjunct2, THEN conjunct2, THEN conjunct2, THEN conjunct2,
      THEN conjunct2, THEN conjunct2, THEN conjunct2]
  show ?thesis
    by (intro conjI) (rule c(1), rule c(2), rule c(3), rule c(4), rule c(5), rule c(6),
      rule c(7), rule c(8), rule c(9), rule length_bonus_example [THEN conjunct1],
      rule length_bonus_example [THEN conjunct2, THEN conjunct1],
      rule length_bonus_example [THEN conjunct2, THEN conjunct2])
qed

text \<open>
  C7, amended. Text without a line break is put into one line of a document, and the line
  then matches the pattern of a word of the spelling table, as it does whenever the text
  holds the word, in any case, with no word character next to it on either side.  Let every
  other pattern of the two tables match the line after the insertion exactly if it did
  before, and let the calculation pattern have the same matches.  If the line did not
  match the pattern of the word before, the spelling errors gain exactly one record, for
  that line, word and correction, and the records of the grammar errors (by line, text
  and suggestion) and the calculation errors are as before; if furthermore the conditions
  of the financial bonus hold after the insertion exactly if they held before, the overall
  score does not go up, and it goes down when the score before clamping was above 0 and at
  most 100 and the text does not grow past 500 characters, where the length bonus sets
  in.  If the line did match the pattern before, the spelling errors gain no record.
\<close>

theorem misspelling_put_into_a_line:
  assumes rule: "word_rule w corr \<in> set spelling_patterns"
    and x: "NL \<notin> set x"
    and l: "l = last (split_on NL A) @ hd (split_on NL B)"
    and l': "l' = last (split_on NL A) @ x @ hd (split_on NL B)"
    and sp: "list_all (\<lambda>(p', r', c'). p' = fst (word_rule w corr) \<or>
                 re_search True r' l' = re_search True r' l) spelling_patterns"
    and gr: "list_all (\<lambda>(p', r', c'). re_search True r' l' = re_search True r' l) grammar_patterns"
    and ca: "re_findall calc_pattern l' = re_findall calc_pattern l"
  shows "(x = x1 @ w' @ x2 \<and> lower w' = w \<and>
          (last (split_on NL A) @ x1 = [] \<or> \<not> is_word (last (last (split_on NL A) @ x1))) \<and>
          (x2 @ hd (split_on NL B) = [] \<or> \<not> is_word (hd (x2 @ hd (split_on NL B)))) \<longrightarrow>
            re_search True (seqs [WordB, word_re w, WordB]) l') \<and>
         (re_search True (seqs [WordB, word_re w, WordB]) l' \<longrightarrow>
            (if re_search True (seqs [WordB, word_re w, WordB]) l
             then map record_key (spelling_errors (detect_errors (A @ x @ B))) =
                  map record_key (spelling_errors (detect_errors (A @ B)))
             else \<exists>xs ys.
                    map record_key (spelling_errors (detect_errors (A @ B))) = xs @ ys \<and>
                    map record_key (spelling_errors (detect_errors (A @ x @ B))) =
                      xs @ [(length (split_on NL A), w, corr)] @ ys)) \<and>
         map record_key (grammar_errors (detect_errors (A @ x @ B))) =
           map record_key (grammar_errors (detect_errors (A @ B))) \<and>
         calculation_errors (detect_errors (A @ x @ B)) =
           calculation_errors (detect_errors (A @ B)) \<and>
         (re_search True (seqs [WordB, word_re w, WordB]) l' \<and>
          \<not> re_search True (seqs [WordB, word_re w, WordB]) l \<and>
          (py_in ''$'' (A @ x @ B) \<and>
             any_in [''roi'', ''investment'', ''return''] (lower (A @ x @ B))) =
          (py_in ''$'' (A @ B) \<and> any_in [''roi'', ''investment'', ''return''] (lower (A @ B))) \<longrightarrow>
            calculate_quality_score (A @ x @ B) (detect_errors (A @ x @ B)) \<le>
              calculate_quality_score (A @ B) (detect_errors (A @ B)) \<and>
            (0 < base_score (A @ B) (detect_errors (A @ B)) \<and>
             base_score (A @ B) (detect_errors (A @ B)) \<le> 100 \<and>
             (500 < length (A @ B) \<or> length (A @ x @ B) \<le> 500) \<longrightarrow>
               calculate_quality_score (A @ x @ B) (detect_errors (A @ x @ B)) <
                 calculate_quality_score (A @ B) (detect_errors (A @ B))))"
proof -
  let ?r = "seqs [WordB, word_re w, WordB]"
  let ?p = "fst (word_rule w corr)"
  let ?a = "last (split_on NL A)"
  let ?b = "hd (split_on NL B)"
  let ?ls1 = "butlast (split_on NL A)"
  let ?ls2 = "tl (split_on NL B)"
  let ?T = "A @ B"
  let ?T' = "A @ x @ B"
  let ?E = "detect_errors ?T"
  let ?E' = "detect_errors ?T'"
  let ?n = "length (split_on NL A)"
  note tw = spelling_table_words [OF rule]
  have disp: "spelling_display ?p = w" and low: "lower w = w" and ne: "w \<noteq> []"
    and hw: "is_word (hd w)" and lw: "is_word (last w)"
    using tw by simp_all
  have n: "Suc (length ?ls1) = ?n"
    using split_on_not_Nil [of NL A] by (cases "split_on NL A" rule: rev_cases) simp_all
  have lines: "split_on NL ?T = ?ls1 @ [l] @ ?ls2"
    unfolding l by (rule lines_before_insertion)
  have lines': "split_on NL ?T' = ?ls1 @ [l'] @ ?ls2"
    unfolding l' by (rule lines_after_insertion [OF x])
  note k = keys_of_lines [OF lines, unfolded n]
  note k' = keys_of_lines [OF lines', unfolded n]
  have triple: "word_rule w corr = (?p, ?r, corr)"
    by (simp add: word_rule_def)
  have mem: "(?p, ?r, corr) \<in> set spelling_patterns"
    using rule triple by simp
  have whole: "x = x1 @ w' @ x2 \<and> lower w' = w \<and>
      (?a @ x1 = [] \<or> \<not> is_word (last (?a @ x1))) \<and>
      (x2 @ ?b = [] \<or> \<not> is_word (hd (x2 @ ?b))) \<longrightarrow> re_search True ?r l'"
  proof
    assume h: "x = x1 @ w' @ x2 \<and> lower w' = w \<and>
      (?a @ x1 = [] \<or> \<not> is_word (last (?a @ x1))) \<and>
      (x2 @ ?b = [] \<or> \<not> is_word (hd (x2 @ ?b)))"
    then have "re_search True ?r ((?a @ x1) @ w' @ (x2 @ ?b))"
      by (intro whole_word_found [OF _ low ne hw lw]) simp_all
    moreover have "l' = (?a @ x1) @ w' @ (x2 @ ?b)"
      using h l' by simp
    ultimately show "re_search True ?r l'" by simp
  qed
  have spell: "re_search True ?r l' \<longrightarrow>
      (if re_search True ?r l
       then map record_key (spelling_errors ?E') = map record_key (spelling_errors ?E)
       else \<exists>xs ys. map record_key (spelling_errors ?E) = xs @ ys \<and>
              map record_key (spelling_errors ?E') = xs @ [(?n, w, corr)] @ ys)"
  proof
    assume after: "re_search True ?r l'"
    note f = filter_one_more [of spelling_patterns ?p ?r corr "\<lambda>r. re_search True r l'"
        "\<lambda>r. re_search True r l", OF spelling_patterns_distinct mem sp after]
    show "if re_search True ?r l
       then map record_key (spelling_errors ?E') = map record_key (spelling_errors ?E)
       else \<exists>xs ys. map record_key (spelling_errors ?E) = xs @ ys \<and>
              map record_key (spelling_errors ?E') = xs @ [(?n, w, corr)] @ ys"
    proof (cases "re_search True ?r l")
      case True
      with f have "filter (\<lambda>(p, r, c). re_search True r l') spelling_patterns =
          filter (\<lambda>(p, r, c). re_search True r l) spelling_patterns"
        by simp
      then have "map record_key (spelling_records ?n l' spelling_patterns) =
          map record_key (spelling_records ?n l spelling_patterns)"
        by (simp only: spelling_keys)
      then show ?thesis
        using True by (simp only: k(1) k'(1) if_True)
    next
      case False
      with f obtain P1 P2
        where P: "filter (\<lambda>(p, r, c). re_search True r l) spelling_patterns = P1 @ P2"
          "filter (\<lambda>(p, r, c). re_search True r l') spelling_patterns = P1 @ [(?p, ?r, corr)] @ P2"
        by auto
      let ?k = "\<lambda>(p, r, c). (?n, spelling_display p, c)"
      let ?X = "map record_key (concat (map (\<lambda>(k, l). spelling_records k l spelling_patterns)
                                    (enumerate (Suc 0) ?ls1)))"
      let ?Y = "map record_key (concat (map (\<lambda>(k, l). spelling_records k l spelling_patterns)
                                    (enumerate (Suc ?n) ?ls2)))"
      have old: "map record_key (spelling_records ?n l spelling_patterns) = map ?k P1 @ map ?k P2"
        by (simp only: spelling_keys P(1) map_append)
      have new: "map record_key (spelling_records ?n l' spelling_patterns) =
          map ?k P1 @ [(?n, w, corr)] @ map ?k P2"
        by (simp only: spelling_keys P(2) map_append list.map prod.case disp)
      have "map record_key (spelling_errors ?E) = (?X @ map ?k P1) @ (map ?k P2 @ ?Y)"
        by (simp only: k(1) old append_assoc)
      moreover have "map record_key (spelling_errors ?E') =
          (?X @ map ?k P1) @ [(?n, w, corr)] @ (map ?k P2 @ ?Y)"
        by (simp only: k'(1) new append_assoc)
      ultimately have "\<exists>xs ys. map record_key (spelling_errors ?E) = xs @ ys \<and>
              map record_key (spelling_errors ?E') = xs @ [(?n, w, corr)] @ ys"
        by blast
      then show ?thesis
        using False by simp
    qed
  qed
  have "filter (\<lambda>(p, r, c). re_search True r l') grammar_patterns =
      filter (\<lambda>(p, r, c). re_search True r l) grammar_patterns"
    using gr by (rule filter_unchanged)
  then have "map record_key (grammar_records ?n l' grammar_patterns) =
      map record_key (grammar_records ?n l grammar_patterns)"
    by (simp only: grammar_keys)
  then have gram: "map record_key (grammar_errors ?E') = map record_key (grammar_errors ?E)"
    by (simp only: k(2) k'(2))
  have calc: "calculation_errors ?E' = calculation_errors ?E"
    by (simp only: k(3) k'(3) ca)
  have score: "re_search True ?r l' \<and> \<not> re_search True ?r l \<and>
      (py_in ''$'' ?T' \<and> any_in [''roi'', ''investment'', ''return''] (lower ?T')) =
      (py_in ''$'' ?T \<and> any_in [''roi'', ''investment'', ''return''] (lower ?T)) \<longrightarrow>
        calculate_quality_score ?T' ?E' \<le> calculate_quality_score ?T ?E \<and>
        (0 < base_score ?T ?E \<and> base_score ?T ?E \<le> 100 \<and>
         (500 < length ?T \<or> length ?T' \<le> 500) \<longrightarrow>
           calculate_quality_score ?T' ?E' < calculate_quality_score ?T ?E)"
  proof
    assume h: "re_search True ?r l' \<and> \<not> re_search True ?r l \<and>
      (py_in ''$'' ?T' \<and> any_in [''roi'', ''investment'', ''return''] (lower ?T')) =
      (py_in ''$'' ?T \<and> any_in [''roi'', ''investment'', ''return''] (lower ?T))"
    then have "l' \<noteq> l" by auto
    then have "x \<noteq> []"
      using l l' by auto
    then have longer: "length ?T < length ?T'"
      by simp
    from spell h obtain xs ys
      where "map record_key (spelling_errors ?E) = xs @ ys"
        "map record_key (spelling_errors ?E') = xs @ [(?n, w, corr)] @ ys"
      by auto
    then have "length (map record_key (spelling_errors ?E')) =
        Suc (length (map record_key (spelling_errors ?E)))"
      by simp
    then have s1: "length (spelling_errors ?E') = Suc (length (spelling_errors ?E))"
      by simp
    have "length (map record_key (grammar_errors ?E')) = length (map record_key (grammar_errors ?E))"
      using gram by simp
    then have s2: "length (grammar_errors ?E') = length (grammar_errors ?E)"
      by simp
    have s3: "length (calculation_errors ?E') = length (calculation_errors ?E)"
      using calc by simp
    have s4: "length (consistency_errors ?E') = length (consistency_errors ?E)"
      "length (logic_errors ?E') = length (logic_errors ?E)"
      by (simp_all add: detect_errors_eq)
    have bonus: "(py_in ''$'' ?T' \<and> any_in [''roi'', ''investment'', ''return''] (lower ?T')) =
      (py_in ''$'' ?T \<and> any_in [''roi'', ''investment'', ''return''] (lower ?T))"
      using h by simp
    have base: "base_score ?T' ?E' =
        base_score ?T ?E - 5 + (if length ?T \<le> 500 \<and> 500 < length ?T' then 5 else 0)"
      by (rule base_score_one_more [OF s1 s2 s3 s4 bonus longer])
    have le: "calculate_quality_score ?T' ?E' \<le> calculate_quality_score ?T ?E"
      unfolding calculate_quality_score_def
      by (rule clamp_mono) (simp add: base)
    have lt: "0 < base_score ?T ?E \<and> base_score ?T ?E \<le> 100 \<and>
         (500 < length ?T \<or> length ?T' \<le> 500) \<longrightarrow>
           calculate_quality_score ?T' ?E' < calculate_quality_score ?T ?E"
    proof
      assume g: "0 < base_score ?T ?E \<and> base_score ?T ?E \<le> 100 \<and>
         (500 < length ?T \<or> length ?T' \<le> 500)"
      then have "base_score ?T' ?E' = base_score ?T ?E - 5"
        using base by auto
      then show "calculate_quality_score ?T' ?E' < calculate_quality_score ?T ?E"
        unfolding calculate_quality_score_def using g
        by (intro clamp_strict) simp_all
    qed
    show "calculate_quality_score ?T' ?E' \<le> calculate_quality_score ?T ?E \<and>
        (0 < base_score ?T ?E \<and> base_score ?T ?E \<le> 100 \<and>
         (500 < length ?T \<or> length ?T' \<le> 500) \<longrightarrow>
           calculate_quality_score ?T' ?E' < calculate_quality_score ?T ?E)"
      by (rule conjI [OF le lt])
  qed
  show ?thesis
    by (rule conjI [OF whole conjI [OF spell conjI [OF gram conjI [OF calc score]]]])
qed

theorem misspelling_put_into_a_line_witness:
  "re_search True (seqs [WordB, word_re ''acheive'', WordB])
     (last (split_on NL ''Our '') @ ''acheive '' @ hd (split_on NL ''plan'')) \<and>
   (\<exists>xs ys.
      map record_key (spelling_errors (detect_errors (''Our '' @ ''plan''))) = xs @ ys \<and>
      map record_key (spelling_errors (detect_errors (''Our '' @ ''acheive '' @ ''plan''))) =
        xs @ [(length (split_on NL ''Our ''), ''acheive'', ''achieve'')] @ ys) \<and>
   calculate_quality_score (''Our '' @ ''acheive '' @ ''plan'')
       (detect_errors (''Our '' @ ''acheive '' @ ''plan'')) <
     calculate_quality_score (''Our '' @ ''plan'') (detect_errors (''Our '' @ ''plan''))"
proof -
  have h1: "word_rule ''acheive'' ''achieve'' \<in> set spelling_patterns"
    by (simp add: spelling_patterns_def)
  have h2: "NL \<notin> set ''acheive ''"
    by code_simp
  have h5: "list_all (\<lambda>(p', r', c'). p' = fst (word_rule ''acheive'' ''achieve'') \<or>
      re_search True r' (last (split_on NL ''Our '') @ ''acheive '' @ hd (split_on NL ''plan'')) =
      re_search True r' (last (split_on NL ''Our '') @ hd (split_on NL ''plan''))) spelling_patterns"
    by code_simp
  have h6: "list_all (\<lambda>(p', r', c').
      re_search True r' (last (split_on NL ''Our '') @ ''acheive '' @ hd (split_on NL ''plan'')) =
      re_search True r' (last (split_on NL ''Our '') @ hd (split_on NL ''plan''))) grammar_patterns"
    by code_simp
  have h7: "re_findall calc_pattern
        (last (split_on NL ''Our '') @ ''acheive '' @ hd (split_on NL ''plan'')) =
      re_findall calc_pattern (last (split_on NL ''Our '') @ hd (split_on NL ''plan''))"
    by code_simp
  note th = misspelling_put_into_a_line
    [where ?x1.0 = "[]" and w' = "''acheive''" and ?x2.0 = "'' ''", OF h1 h2 refl refl h5 h6 h7]
  have w1: "''acheive '' = [] @ ''acheive'' @ '' '' \<and> lower ''acheive'' = ''acheive'' \<and>
      (last (split_on NL ''Our '') @ [] = [] \<or>
       \<not> is_word (last (last (split_on NL ''Our '') @ []))) \<and>
      ('' '' @ hd (split_on NL ''plan'') = [] \<or>
       \<not> is_word (hd ('' '' @ hd (split_on NL ''plan''))))"
    by code_simp
  have found: "re_search True (seqs [WordB, word_re ''acheive'', WordB])
     (last (split_on NL ''Our '') @ ''acheive '' @ hd (split_on NL ''plan''))"
    by (rule th [THEN conjunct1, THEN mp, OF w1])
  have nf: "\<not> re_search True (seqs [WordB, word_re ''acheive'', WordB])
     (last (split_on NL ''Our '') @ hd (split_on NL ''plan''))"
    by code_simp
  note sp = th [THEN conjunct2, THEN conjunct1, THEN mp, OF found, unfolded if_not_P [OF nf]]
  have bonus: "(py_in ''$'' (''Our '' @ ''acheive '' @ ''plan'') \<and>
        any_in [''roi'', ''investment'', ''return''] (lower (''Our '' @ ''acheive '' @ ''plan''))) =
      (py_in ''$'' (''Our '' @ ''plan'') \<and>
        any_in [''roi'', ''investment'', ''return''] (lower (''Our '' @ ''plan'')))"
    by code_simp
  note hs = conjI [OF found conjI [OF nf bonus]]
  have g: "0 < base_score (''Our '' @ ''plan'') (detect_errors (''Our '' @ ''plan'')) \<and>
      base_score (''Our '' @ ''plan'') (detect_errors (''Our '' @ ''plan'')) \<le> 100 \<and>
      (500 < length (''Our '' @ ''plan'') \<or> length (''Our '' @ ''acheive '' @ ''plan'') \<le> 500)"
    by code_simp
  note sc = th [THEN conjunct2, THEN conjunct2, THEN conjunct2, THEN conjunct2, THEN mp, OF hs,
      THEN conjunct2, THEN mp, OF g]
  show ?thesis
    by (rule conjI [OF found conjI [OF sp sc]])
qed

section \<open>The literals of a calculation\<close>

declare findall_from.simps [simp del]
















section \<open>The calculation check\<close>



end
